theory Spec2Isabelle
  imports
    Complex_Main
    "HOL-Library.AList"
    "HOL-Library.Char_ord"
    "HOL-Library.List_Lexorder"
begin

section \<open>The D-Bus to MQTT bridge of \<^verbatim>\<open>dbus_mqtt.py\<close>\<close>

text \<open>
  The class \<^verbatim>\<open>DbusMqtt\<close> keeps four dictionaries and an ordered publish queue. Every
  method is embedded as a function from the state before the call to the outcome of the
  call and the state after it. A Python exception does not roll anything back, so a
  method that can raise returns a pair: \<open>Inl e\<close> for the exception or \<open>Inr r\<close> for the
  returned value, together with the state as it is at that moment.

  Python dictionaries (insertion ordered, as is \<^verbatim>\<open>OrderedDict\<close>) are association lists:
  \<open>map_of d k\<close> is \<^verbatim>\<open>d.get(k)\<close>, \<open>AList.update k v d\<close> is \<^verbatim>\<open>d[k] = v\<close> (an existing key keeps
  its position, a new key goes to the end), \<open>AList.delete k d\<close> removes the key.
\<close>

subsection \<open>Python values, exceptions and string helpers\<close>

datatype error =
    DBusException string \<comment> \<open>carries \<^verbatim>\<open>e.get_dbus_name()\<close>\<close>
  | Exception string
  | TypeError
  | ValueError
  | KeyError
  | IndexError
  | AttributeError
  | RecursionError
  | XMLSyntaxError

text \<open>Values as they come out of \<^verbatim>\<open>unwrap_dbus_value\<close>. Doubles are not part of the model.\<close>

datatype pyval =
    PyNone
  | PyBool bool
  | PyInt int
  | PyStr string
  | PyList "pyval list"
  | PyDict "(string \<times> pyval) list"

definition startswith :: "string \<Rightarrow> string \<Rightarrow> bool" where
  "startswith s p = (take (length p) s = p)"

definition endswith :: "string \<Rightarrow> string \<Rightarrow> bool" where
  "endswith s p = (drop (length s - length p) s = p)"

text \<open>\<^verbatim>\<open>s.split(c)\<close>: always at least one piece.\<close>

fun py_split :: "char \<Rightarrow> string \<Rightarrow> string list" where
  "py_split c [] = [[]]"
| "py_split c (x # xs) =
     (if x = c then [] # py_split c xs
      else (case py_split c xs of
              w # ws \<Rightarrow> (x # w) # ws
            | [] \<Rightarrow> [[x]]))"

text \<open>\<^verbatim>\<open>s.split(c, n)\<close>: at most \<open>n\<close> cuts, the rest stays in the last piece.\<close>

fun py_split_max :: "char \<Rightarrow> nat \<Rightarrow> string \<Rightarrow> string list" where
  "py_split_max c 0 s = [s]"
| "py_split_max c (Suc n) s =
     (if c \<in> set s
      then takeWhile (\<lambda>x. x \<noteq> c) s # py_split_max c n (tl (dropWhile (\<lambda>x. x \<noteq> c) s))
      else [s])"

text \<open>Decimal digits of a number, as \<^verbatim>\<open>'{}'.format(n)\<close> prints an \<^verbatim>\<open>int\<close>.\<close>

definition digit_char :: "nat \<Rightarrow> char" where
  "digit_char d = ''0123456789'' ! d"

function show_nat :: "nat \<Rightarrow> string" where
  "show_nat n = (if n < 10 then [digit_char n] else show_nat (n div 10) @ [digit_char (n mod 10)])"
  by pat_completeness auto
termination
  by (relation "measure id") auto

declare show_nat.simps [simp del]

definition show_int :: "int \<Rightarrow> string" where
  "show_int i = (if i < 0 then CHR ''-'' # show_nat (nat (- i)) else show_nat (nat i))"

text \<open>
  \<^verbatim>\<open>int(s)\<close> on a string: surrounding whitespace is dropped, one sign is allowed, then
  decimal digits, where single underscores may separate digits. Anything else is a
  \<^verbatim>\<open>ValueError\<close>.
\<close>

definition is_space :: "char \<Rightarrow> bool" where
  "is_space c = (c \<in> set [CHR '' '', CHR 0x09, CHR 0x0A, CHR 0x0B, CHR 0x0C, CHR 0x0D])"

definition py_strip :: "string \<Rightarrow> string" where
  "py_strip s = rev (dropWhile is_space (rev (dropWhile is_space s)))"

definition digit_val :: "char \<Rightarrow> nat option" where
  "digit_val c = (if c \<in> set ''0123456789'' then Some (of_char c - 48) else None)"

fun digits_val :: "nat \<Rightarrow> string \<Rightarrow> nat option" where
  "digits_val acc [] = Some acc"
| "digits_val acc [c] = (case digit_val c of None \<Rightarrow> None | Some d \<Rightarrow> Some (10 * acc + d))"
| "digits_val acc (c # c' # cs) =
     (case digit_val c of
        None \<Rightarrow> None
      | Some d \<Rightarrow>
          if c' = CHR ''_'' then (if cs = [] then None else digits_val (10 * acc + d) cs)
          else digits_val (10 * acc + d) (c' # cs))"

definition int_of_string :: "string \<Rightarrow> error + int" where
  "int_of_string s =
     (let t = py_strip s;
          neg = (t \<noteq> [] \<and> hd t = CHR ''-'');
          ds = (if t \<noteq> [] \<and> (hd t = CHR ''-'' \<or> hd t = CHR ''+'') then tl t else t)
      in if ds = [] then Inl ValueError
         else (case digits_val 0 ds of
                 None \<Rightarrow> Inl ValueError
               | Some n \<Rightarrow> Inr (if neg then - int n else int n)))"

text \<open>\<^verbatim>\<open>int(v)\<close> on an unwrapped bus value.\<close>

fun py_int :: "pyval \<Rightarrow> error + int" where
  "py_int PyNone = Inl TypeError"
| "py_int (PyBool b) = Inr (if b then 1 else 0)"
| "py_int (PyInt i) = Inr i"
| "py_int (PyStr s) = int_of_string s"
| "py_int (PyList xs) = Inl TypeError"
| "py_int (PyDict kvs) = Inl TypeError"

subsection \<open>Module constants and helpers\<close>

definition ServicePrefix :: string where
  "ServicePrefix = ''com.victronenergy.''"

definition blocked_items :: "(string \<times> string) set" where
  "blocked_items = {(''vebus'', ''/Interfaces/Mk2/Tunnel''), (''paygo'', ''/LVD/Threshold'')}"

definition get_service_type :: "string \<Rightarrow> error + string" where
  "get_service_type service_name =
     (if \<not> startswith service_name ServicePrefix then Inl (Exception ''No victron service'')
      else (case py_split CHR ''.'' service_name of
              _ # _ # t # _ \<Rightarrow> Inr t
            | _ \<Rightarrow> Inl IndexError))"

text \<open>
  The device instance reaches \<^verbatim>\<open>_add_item\<close> as an \<^verbatim>\<open>int\<close> (scan, read request) or as a
  string cut out of a registry key (change signal); \<^verbatim>\<open>'{}'.format\<close> prints either.
\<close>

datatype device_instance = InstInt int | InstStr string

fun format_instance :: "device_instance \<Rightarrow> string" where
  "format_instance (InstInt i) = show_int i"
| "format_instance (InstStr s) = s"

definition get_short_service_name :: "string \<Rightarrow> int \<Rightarrow> error + string" where
  "get_short_service_name service device_instance =
     (case get_service_type service of
        Inl e \<Rightarrow> Inl e
      | Inr t \<Rightarrow> Inr (t @ ''/'' @ show_int device_instance))"

subsection \<open>State of a \<^verbatim>\<open>DbusMqtt\<close> object and its environment\<close>

text \<open>
  The fields are the attributes of the object. \<open>socket_watch\<close> is true when
  \<^verbatim>\<open>self._socket_watch\<close> is not \<^verbatim>\<open>None\<close>; \<open>registrator\<close> is \<open>None\<close> when there is no
  registrator and \<open>Some c\<close> for one whose \<^verbatim>\<open>client_id\<close> is \<open>c\<close>. The last three fields record
  what has been sent out: successful \<^verbatim>\<open>client.publish\<close> calls in order, subscriptions, and
  the number of \<^verbatim>\<open>register()\<close> calls.
\<close>

record state =
  system_id :: string
  topics :: "(string \<times> string) list"
  values' :: "(string \<times> pyval) list"
  services :: "(string \<times> string) list"
  service_ids :: "(string \<times> string) list"
  queue :: "(string \<times> string option) list"
  last_queue_run :: real
  connected_to_cloud :: bool
  registrator :: "string option option"
  socket_watch :: bool
  published :: "(string \<times> string option) list"
  subscribed :: "string list"
  registrations :: nat

type_synonym 'a res = "(error + 'a) \<times> state"

text \<open>
  What \<^verbatim>\<open>tree.findall('node')\<close> and \<^verbatim>\<open>tree.findall('interface')\<close> give on a parsed
  introspection document: the \<^verbatim>\<open>name\<close> attribute of every such child, if it has one.
\<close>

record introspection =
  nodes :: "string option list"
  interfaces :: "string option list"

text \<open>
  Everything outside the class is a parameter: the bus (\<open>get_dbus_value\<close> is the whole of
  \<^verbatim>\<open>_get_dbus_value\<close>, \<open>set_dbus_value\<close> of \<^verbatim>\<open>_set_dbus_value\<close>, \<open>introspect_xml\<close> the
  \<^verbatim>\<open>Introspect\<close> call followed by \<^verbatim>\<open>etree.fromstring\<close>), the marshalling and JSON
  functions (\<open>json_dumps v\<close> is \<^verbatim>\<open>json.dumps(dict(value=v))\<close>, \<open>json_loads_value p\<close> is
  \<^verbatim>\<open>json.loads(p)['value']\<close>), whether \<^verbatim>\<open>client.publish\<close> returns or raises, and how deep
  the interpreter lets a recursion go.
\<close>

record env =
  get_dbus_value :: "string \<Rightarrow> string \<Rightarrow> error + pyval"
  set_dbus_value :: "string \<Rightarrow> string \<Rightarrow> pyval \<Rightarrow> error + unit"
  introspect_xml :: "string \<Rightarrow> string \<Rightarrow> error + introspection"
  get_name_owner :: "string \<Rightarrow> error + string"
  unwrap_dbus_value :: "pyval \<Rightarrow> pyval"
  json_dumps :: "pyval \<Rightarrow> string"
  json_loads_value :: "string \<Rightarrow> error + pyval"
  client_publish_ok :: "string \<Rightarrow> string option \<Rightarrow> bool"
  recursion_limit :: nat

definition UnknownObject :: string where
  "UnknownObject = ''org.freedesktop.DBus.Error.UnknownObject''"

definition UnknownMethod :: string where
  "UnknownMethod = ''org.freedesktop.DBus.Error.UnknownMethod''"

definition ServiceUnknown :: string where
  "ServiceUnknown = ''org.freedesktop.DBus.Error.ServiceUnknown''"

definition Disconnected :: string where
  "Disconnected = ''org.freedesktop.DBus.Error.Disconnected''"

definition NoReply :: string where
  "NoReply = ''org.freedesktop.DBus.Error.NoReply''"

text \<open>\<^verbatim>\<open>del d[k]\<close> raises \<^verbatim>\<open>KeyError\<close> on a missing key.\<close>

definition py_del :: "'k \<Rightarrow> ('k \<times> 'v) list \<Rightarrow> error + ('k \<times> 'v) list" where
  "py_del k d = (if map_of d k = None then Inl KeyError else Inr (AList.delete k d))"

subsection \<open>The publish queue\<close>

definition publish :: "env \<Rightarrow> string \<Rightarrow> pyval \<Rightarrow> state \<Rightarrow> state" where
  "publish env topic v s =
     (if \<not> socket_watch s then s
      else s\<lparr>queue := AList.update topic (Some (json_dumps env v)) (queue s)\<rparr>)"

definition unpublish :: "string \<Rightarrow> state \<Rightarrow> state" where
  "unpublish topic s =
     (if \<not> socket_watch s then s
      else if endswith topic ''/system/0/Serial'' then s
      else s\<lparr>queue := AList.update topic None (queue s)\<rparr>)"

fun publish_all_loop :: "env \<Rightarrow> string list \<Rightarrow> state \<Rightarrow> unit res" where
  "publish_all_loop env [] s = (Inr (), s)"
| "publish_all_loop env (topic # rest) s =
     (case map_of (values' s) topic of
        None \<Rightarrow> (Inl KeyError, s)
      | Some v \<Rightarrow> publish_all_loop env rest (publish env topic v s))"

definition publish_all :: "env \<Rightarrow> state \<Rightarrow> unit res" where
  "publish_all env s = publish_all_loop env (sort (map fst (values' s))) s"

text \<open>
  \<^verbatim>\<open>_unpublish_all\<close> asks the dictionary for \<^verbatim>\<open>iterkeys\<close>, which a Python 3 dictionary does
  not have: the call raises before the loop starts. \<open>unpublish_all_py2\<close> is the loop as it
  is written, for an interpreter whose dictionaries have the method.
\<close>

definition unpublish_all :: "state \<Rightarrow> unit res" where
  "unpublish_all s = (Inl AttributeError, s)"

definition unpublish_all_py2 :: "state \<Rightarrow> unit res" where
  "unpublish_all_py2 s = (Inr (), fold unpublish (map fst (values' s)) s)"

text \<open>The loop of \<^verbatim>\<open>_service_queue\<close>: \<open>False\<close> as soon as the queue is found empty.\<close>

fun service_queue_loop :: "env \<Rightarrow> nat \<Rightarrow> state \<Rightarrow> bool \<times> state" where
  "service_queue_loop env 0 s = (True, s)"
| "service_queue_loop env (Suc n) s =
     (case queue s of
        [] \<Rightarrow> (False, s)
      | (topic, v) # rest \<Rightarrow>
          service_queue_loop env n
            (if client_publish_ok env topic v
             then s\<lparr>queue := rest, published := published s @ [(topic, v)]\<rparr>
             else s\<lparr>queue := rest\<rparr>))"

definition service_queue :: "env \<Rightarrow> real \<Rightarrow> nat \<Rightarrow> state \<Rightarrow> bool \<times> state" where
  "service_queue env now items s = service_queue_loop env items (s\<lparr>last_queue_run := now\<rparr>)"

text \<open>The clock is read once by the timer (\<open>now\<close>) and once more by the drain (\<open>now'\<close>).\<close>

definition timer_service_queue :: "env \<Rightarrow> real \<Rightarrow> real \<Rightarrow> state \<Rightarrow> bool \<times> state" where
  "timer_service_queue env now now' s =
     (if length (queue s) > 0 \<and> now - last_queue_run s > 1.5
      then (True, snd (service_queue env now' 5 s))
      else (True, s))"

subsection \<open>The mirror table\<close>

definition add_item ::
  "string \<Rightarrow> device_instance \<Rightarrow> string \<Rightarrow> pyval \<Rightarrow> state \<Rightarrow> string option res" where
  "add_item service device_instance path0 v s =
     (let path = (if \<not> startswith path0 ''/'' then ''/'' @ path0 else path0);
          uid = service @ path
      in case map_of (topics s) uid of
           Some r \<Rightarrow> (Inr (Some r), s)
         | None \<Rightarrow>
             (case get_service_type service of
                Inl e \<Rightarrow> (Inl e, s)
              | Inr service_type \<Rightarrow>
                  if (service_type, path) \<in> blocked_items then (Inr None, s)
                  else
                    (let topic = ''N/'' @ system_id s @ ''/'' @ service_type @ ''/''
                           @ format_instance device_instance @ path
                     in (Inr (Some topic),
                         s\<lparr>topics := AList.update uid topic (topics s),
                           values' := AList.update topic v (values' s)\<rparr>))))"

subsection \<open>Scanning a service\<close>

text \<open>The loop over \<^verbatim>\<open>items.items()\<close> of a bulk listing.\<close>

fun scan_items ::
  "env \<Rightarrow> string \<Rightarrow> int \<Rightarrow> bool \<Rightarrow> (string \<times> pyval) list \<Rightarrow> state \<Rightarrow> unit res" where
  "scan_items env service device_instance pub [] s = (Inr (), s)"
| "scan_items env service device_instance pub ((path, item) # rest) s =
     (let v = unwrap_dbus_value env item
      in case add_item service (InstInt device_instance) path v s of
           (Inl e, s1) \<Rightarrow> (Inl e, s1)
         | (Inr None, s1) \<Rightarrow> scan_items env service device_instance pub rest s1
         | (Inr (Some topic), s1) \<Rightarrow>
             scan_items env service device_instance pub rest
               (if pub then publish env topic v s1 else s1))"

text \<open>The loop over \<^verbatim>\<open>tree.findall('interface')\<close> at a node without child nodes.\<close>

fun introspect_interfaces ::
  "env \<Rightarrow> string \<Rightarrow> int \<Rightarrow> string \<Rightarrow> bool \<Rightarrow> string option list \<Rightarrow> state \<Rightarrow> unit res" where
  "introspect_interfaces env service device_instance path pub [] s = (Inr (), s)"
| "introspect_interfaces env service device_instance path pub (iface # rest) s =
     (if iface = Some ''com.victronenergy.BusItem''
      then (case get_dbus_value env service path of
              Inl e \<Rightarrow> (Inl e, s)
            | Inr v \<Rightarrow>
                (case add_item service (InstInt device_instance) path v s of
                   (Inl e, s1) \<Rightarrow> (Inl e, s1)
                 | (Inr None, s1) \<Rightarrow>
                     introspect_interfaces env service device_instance path pub rest s1
                 | (Inr (Some topic), s1) \<Rightarrow>
                     introspect_interfaces env service device_instance path pub rest
                       (if pub then publish env topic v s1 else s1)))
      else introspect_interfaces env service device_instance path pub rest s)"

text \<open>
  \<^verbatim>\<open>_introspect\<close> calls itself for every named child node. The first argument is the
  number of nested calls the interpreter still allows; at zero the call raises
  \<^verbatim>\<open>RecursionError\<close>.
\<close>

fun introspect ::
    "nat \<Rightarrow> env \<Rightarrow> string \<Rightarrow> int \<Rightarrow> string \<Rightarrow> bool \<Rightarrow> state \<Rightarrow> unit res"
  and introspect_nodes ::
    "nat \<Rightarrow> env \<Rightarrow> string \<Rightarrow> int \<Rightarrow> string \<Rightarrow> bool \<Rightarrow> string option list \<Rightarrow> state \<Rightarrow> unit res"
  where
  "introspect 0 env service device_instance path pub s = (Inl RecursionError, s)"
| "introspect (Suc d) env service device_instance path pub s =
     (case introspect_xml env service path of
        Inl e \<Rightarrow> (Inl e, s)
      | Inr tree \<Rightarrow>
          if length (nodes tree) = 0
          then introspect_interfaces env service device_instance path pub (interfaces tree) s
          else introspect_nodes d env service device_instance path pub (nodes tree) s)"
| "introspect_nodes d env service device_instance path pub [] s = (Inr (), s)"
| "introspect_nodes d env service device_instance path pub (child # rest) s =
     (case child of
        None \<Rightarrow> introspect_nodes d env service device_instance path pub rest s
      | Some name \<Rightarrow>
          (case introspect d env service device_instance
                  (if endswith path ''/'' then path @ name else path @ ''/'' @ name) pub s of
             (Inl e, s1) \<Rightarrow> (Inl e, s1)
           | (Inr _, s1) \<Rightarrow> introspect_nodes d env service device_instance path pub rest s1))"

text \<open>
  The inner \<^verbatim>\<open>try\<close> around the read of \<^verbatim>\<open>/DeviceInstance\<close>: an unknown object or method and
  a \<^verbatim>\<open>TypeError\<close> (from the call or from \<^verbatim>\<open>int\<close>) give instance 0, anything else is raised
  again.
\<close>

fun read_device_instance :: "error + pyval \<Rightarrow> error + int" where
  "read_device_instance (Inl (DBusException n)) =
     (if n = UnknownObject \<or> n = UnknownMethod then Inr 0 else Inl (DBusException n))"
| "read_device_instance (Inl TypeError) = Inr 0"
| "read_device_instance (Inl e) = Inl e"
| "read_device_instance (Inr v) =
     (case py_int v of
        Inl TypeError \<Rightarrow> Inr 0
      | Inl e \<Rightarrow> Inl e
      | Inr i \<Rightarrow> Inr i)"

text \<open>
  What follows the registry write in \<^verbatim>\<open>_scan_dbus_service\<close>: the bulk read of \<^verbatim>\<open>/\<close>, with
  the fall back to introspection when the service has no item listing.
\<close>

fun scan_listing :: "env \<Rightarrow> string \<Rightarrow> int \<Rightarrow> bool \<Rightarrow> error + pyval \<Rightarrow> state \<Rightarrow> unit res" where
  "scan_listing env service device_instance pub (Inl (DBusException n)) s =
     (if n = UnknownObject \<or> n = UnknownMethod
      then introspect (recursion_limit env) env service device_instance ''/'' pub s
      else (Inl (DBusException n), s))"
| "scan_listing env service device_instance pub (Inl e) s = (Inl e, s)"
| "scan_listing env service device_instance pub (Inr (PyDict items)) s =
     scan_items env service device_instance pub items s"
| "scan_listing env service device_instance pub (Inr v) s = (Inr (), s)"

text \<open>The body of the outer \<^verbatim>\<open>try\<close> of \<^verbatim>\<open>_scan_dbus_service\<close>.\<close>

definition scan_body :: "env \<Rightarrow> string \<Rightarrow> bool \<Rightarrow> state \<Rightarrow> unit res" where
  "scan_body env service pub s =
     (case read_device_instance (get_dbus_value env service ''/DeviceInstance'') of
        Inl e \<Rightarrow> (Inl e, s)
      | Inr device_instance \<Rightarrow>
          (case get_short_service_name service device_instance of
             Inl e \<Rightarrow> (Inl e, s)
           | Inr short_service_name \<Rightarrow>
               scan_listing env service device_instance pub (get_dbus_value env service ''/'')
                 (s\<lparr>services := AList.update short_service_name service (services s)\<rparr>)))"

definition transient :: "string \<Rightarrow> bool" where
  "transient n = (n = ServiceUnknown \<or> n = Disconnected \<or> n = NoReply)"

text \<open>The outer \<^verbatim>\<open>except\<close>: the three transient bus errors are logged and swallowed.\<close>

fun catch_transient :: "unit res \<Rightarrow> unit res" where
  "catch_transient (Inl (DBusException n), s) =
     (if n = ServiceUnknown \<or> n = Disconnected then (Inr (), s)
      else if n = NoReply then (Inr (), s)
      else (Inl (DBusException n), s))"
| "catch_transient r = r"

definition scan_dbus_service :: "env \<Rightarrow> string \<Rightarrow> bool \<Rightarrow> state \<Rightarrow> unit res" where
  "scan_dbus_service env service pub s = catch_transient (scan_body env service pub s)"

subsection \<open>Name ownership\<close>

text \<open>The teardown loop, over the snapshot \<^verbatim>\<open>list(self._topics.items())\<close>.\<close>

fun forget_topics :: "(string \<times> string) list \<Rightarrow> string \<Rightarrow> state \<Rightarrow> unit res" where
  "forget_topics [] name s = (Inr (), s)"
| "forget_topics ((path, topic) # rest) name s =
     (if startswith path (name @ ''/'')
      then (case py_del path (topics (unpublish topic s)) of
              Inl e \<Rightarrow> (Inl e, unpublish topic s)
            | Inr ts \<Rightarrow>
                (case py_del topic (values' (unpublish topic s)) of
                   Inl e \<Rightarrow> (Inl e, (unpublish topic s)\<lparr>topics := ts\<rparr>)
                 | Inr vs \<Rightarrow>
                     forget_topics rest name ((unpublish topic s)\<lparr>topics := ts, values' := vs\<rparr>)))
      else forget_topics rest name s)"

text \<open>The two guarded deletions that end the disappearance branch.\<close>

definition forget_service :: "string \<Rightarrow> string \<Rightarrow> state \<Rightarrow> state" where
  "forget_service name oldowner s =
     (let s2 = (if map_of (services s) name \<noteq> None
                then s\<lparr>services := AList.delete name (services s)\<rparr> else s)
      in if map_of (service_ids s2) oldowner \<noteq> None
         then s2\<lparr>service_ids := AList.delete oldowner (service_ids s2)\<rparr> else s2)"

definition dbus_name_owner_changed ::
  "env \<Rightarrow> string \<Rightarrow> string \<Rightarrow> string \<Rightarrow> state \<Rightarrow> unit res" where
  "dbus_name_owner_changed env name oldowner newowner s =
     (if \<not> startswith name ''com.victronenergy.'' then (Inr (), s)
      else if newowner \<noteq> [] then
        (case scan_dbus_service env name True s of
           (Inl e, s1) \<Rightarrow> (Inl e, s1)
         | (Inr _, s1) \<Rightarrow>
             (Inr (), s1\<lparr>service_ids := AList.update newowner name (service_ids s1)\<rparr>))
      else if oldowner \<noteq> [] then
        (case forget_topics (topics s) name s of
           (Inl e, s1) \<Rightarrow> (Inl e, s1)
         | (Inr _, s1) \<Rightarrow> (Inr (), forget_service name oldowner s1))
      else (Inr (), s))"

subsection \<open>Change signals\<close>

text \<open>The last lines of \<^verbatim>\<open>_on_dbus_value_changed\<close>, once the topic is known.\<close>

definition store_change :: "env \<Rightarrow> (string \<times> pyval) list \<Rightarrow> string \<Rightarrow> state \<Rightarrow> unit res" where
  "store_change env changes topic s =
     (case map_of changes ''Value'' of
        None \<Rightarrow> (Inr (), s)
      | Some w \<Rightarrow>
          (Inr (), publish env topic (unwrap_dbus_value env w)
                     (s\<lparr>values' := AList.update topic (unwrap_dbus_value env w) (values' s)\<rparr>)))"

text \<open>
  The branch for a path that has no topic yet, entered with the first registry entry
  whose value is the service: the instance is the second piece of the key, the item is
  added, and the topic is then read with \<^verbatim>\<open>self._topics[uid]\<close>.
\<close>

definition new_item_found ::
  "env \<Rightarrow> (string \<times> pyval) list \<Rightarrow> string \<Rightarrow> string \<Rightarrow> string \<Rightarrow> state \<Rightarrow> unit res" where
  "new_item_found env changes service path service_short_name s =
     (case py_split CHR ''/'' service_short_name of
        _ # device_instance # _ \<Rightarrow>
          (case add_item service (InstStr device_instance) path PyNone s of
             (Inl e, s1) \<Rightarrow> (Inl e, s1)
           | (Inr _, s1) \<Rightarrow>
               (case map_of (topics s1) (service @ path) of
                  None \<Rightarrow> (Inl KeyError, s1)
                | Some topic \<Rightarrow> store_change env changes topic s1))
      | _ \<Rightarrow> (Inl IndexError, s))"

definition on_dbus_value_changed ::
  "env \<Rightarrow> (string \<times> pyval) list \<Rightarrow> string \<Rightarrow> string \<Rightarrow> state \<Rightarrow> unit res" where
  "on_dbus_value_changed env changes path service_id s =
     (case map_of (service_ids s) service_id of
        None \<Rightarrow> (Inr (), s)
      | Some service \<Rightarrow>
          (case map_of (topics s) (service @ path) of
             Some topic \<Rightarrow> store_change env changes topic s
           | None \<Rightarrow>
               (case find (\<lambda>(service_short_name, service_name). service_name = service)
                       (services s) of
                  None \<Rightarrow> (Inr (), s)
                | Some (service_short_name, service_name) \<Rightarrow>
                    new_item_found env changes service path service_short_name s)))"

subsection \<open>Requests from the broker\<close>

definition get_uid_by_topic :: "string \<Rightarrow> state \<Rightarrow> error + (string option \<times> int \<times> string)" where
  "get_uid_by_topic topic s =
     (case py_split_max CHR ''/'' 4 topic of
        [action, sid, service_type, device_instance, path] \<Rightarrow>
          (case int_of_string device_instance of
             Inl e \<Rightarrow> Inl e
           | Inr di \<Rightarrow>
               Inr (map_of (services s) (service_type @ ''/'' @ show_int di), di, path))
      | _ \<Rightarrow> Inl ValueError)"

definition handle_write :: "env \<Rightarrow> string \<Rightarrow> string \<Rightarrow> state \<Rightarrow> unit res" where
  "handle_write env topic payload s =
     (case json_loads_value env payload of
        Inl e \<Rightarrow> (Inl e, s)
      | Inr v \<Rightarrow>
          (case get_uid_by_topic topic s of
             Inl e \<Rightarrow> (Inl e, s)
           | Inr (None, device_instance, path) \<Rightarrow> (Inl (Exception ''Unknown service''), s)
           | Inr (Some service, device_instance, path) \<Rightarrow>
               (case set_dbus_value env service (''/'' @ path) v of
                  Inl e \<Rightarrow> (Inl e, s)
                | Inr _ \<Rightarrow> (Inr (), s))))"

definition handle_read :: "env \<Rightarrow> string \<Rightarrow> state \<Rightarrow> unit res" where
  "handle_read env topic s =
     (case get_uid_by_topic topic s of
        Inl e \<Rightarrow> (Inl e, s)
      | Inr (None, device_instance, path) \<Rightarrow> (Inl (Exception ''Unknown service''), s)
      | Inr (Some service, device_instance, path) \<Rightarrow>
          (case get_dbus_value env service (''/'' @ path) of
             Inl e \<Rightarrow> (Inl e, s)
           | Inr v \<Rightarrow>
               (case add_item service (InstInt device_instance) path v s of
                  (Inl e, s1) \<Rightarrow> (Inl e, s1)
                | (Inr r, s1) \<Rightarrow>
                    if r = Some topic then (Inr (), publish env topic v s1) else (Inr (), s1))))"

text \<open>The body of the \<^verbatim>\<open>try\<close> in \<^verbatim>\<open>_on_message\<close>.\<close>

definition handle_request :: "env \<Rightarrow> string \<Rightarrow> string \<Rightarrow> state \<Rightarrow> unit res" where
  "handle_request env msg_topic payload s =
     (case py_split_max CHR ''/'' 2 msg_topic of
        [action, sid, path] \<Rightarrow>
          if sid \<noteq> system_id s then (Inl (Exception ''Unknown system id''), s)
          else if action = ''W'' then handle_write env (''N/'' @ sid @ ''/'' @ path) payload s
          else if action = ''R'' then handle_read env (''N/'' @ sid @ ''/'' @ path) s
          else (Inr (), s)
      | _ \<Rightarrow> (Inl ValueError, s))"

text \<open>
  \<^verbatim>\<open>_on_message\<close>: the connection-state branch is outside the \<^verbatim>\<open>try\<close>, so what it raises
  leaves the handler; a request's exception is logged and swallowed.
\<close>

definition on_message :: "env \<Rightarrow> string \<Rightarrow> string \<Rightarrow> state \<Rightarrow> unit res" where
  "on_message env msg_topic payload s =
     (if startswith msg_topic ''$SYS/broker/connection/'' then
        (case int_of_string payload of
           Inl e \<Rightarrow> (Inl e, s)
         | Inr n \<Rightarrow>
             if n = 1 then (Inr (), s\<lparr>connected_to_cloud := True\<rparr>)
             else if connected_to_cloud s then
               (case registrator s of
                  None \<Rightarrow> (Inl AttributeError, s\<lparr>connected_to_cloud := False\<rparr>)
                | Some _ \<Rightarrow>
                    (Inr (), s\<lparr>connected_to_cloud := False,
                               registrations := Suc (registrations s)\<rparr>))
             else (Inr (), s))
      else (Inr (), snd (handle_request env msg_topic payload s)))"

definition on_connect :: "env \<Rightarrow> state \<Rightarrow> unit res" where
  "on_connect env s =
     publish_all env
       (s\<lparr>subscribed := subscribed s
            @ [''R/'' @ system_id s @ ''/#'', ''W/'' @ system_id s @ ''/#'']
            @ (case registrator s of
                 Some (Some client_id) \<Rightarrow> [''$SYS/broker/connection/'' @ client_id @ ''/state'']
               | _ \<Rightarrow> [])\<rparr>)"

subsection \<open>Start-up and the event loop\<close>

text \<open>The loop of \<^verbatim>\<open>__init__\<close> over \<^verbatim>\<open>list_names()\<close>.\<close>

fun init_loop :: "env \<Rightarrow> string list \<Rightarrow> state \<Rightarrow> unit res" where
  "init_loop env [] s = (Inr (), s)"
| "init_loop env (service # rest) s =
     (if startswith service ''com.victronenergy.''
      then (case get_name_owner env service of
              Inl e \<Rightarrow> (Inl e, s)
            | Inr owner \<Rightarrow>
                (case scan_dbus_service env service False
                        (s\<lparr>service_ids := AList.update owner service (service_ids s)\<rparr>) of
                   (Inl e, s1) \<Rightarrow> (Inl e, s1)
                 | (Inr _, s1) \<Rightarrow> init_loop env rest s1))
      else init_loop env rest s)"

text \<open>
  \<^verbatim>\<open>__init__\<close>, given the portal id, the registrator's client id when \<^verbatim>\<open>init_broker\<close> is set
  (\<open>None\<close> when it is not) and the names on the bus. The base class starts without a socket.
\<close>

definition dbus_mqtt_init ::
  "env \<Rightarrow> string \<Rightarrow> string option option \<Rightarrow> string list \<Rightarrow> unit res" where
  "dbus_mqtt_init env portal_id reg names =
     init_loop env names
       \<lparr>system_id = portal_id, topics = [], values' = [], services = [], service_ids = [],
        queue = [], last_queue_run = 0, connected_to_cloud = False, registrator = reg,
        socket_watch = False, published = [], subscribed = [],
        registrations = (if reg = None then 0 else 1)\<rparr>"

text \<open>
  Bus names never contain a slash: the bus daemon refuses a name that is not made of
  dot-separated elements of letters, digits, underscores and hyphens.
\<close>

definition bus_name_ok :: "string \<Rightarrow> bool" where
  "bus_name_ok name = (CHR ''/'' \<notin> set name)"

text \<open>
  The states the object can be in: what a successful \<^verbatim>\<open>__init__\<close> leaves, and from there
  whatever a callback leaves, whether it returned or raised (the main loop logs the
  exception and goes on). The base class sets and clears the socket watch.
\<close>

inductive reachable :: "state \<Rightarrow> bool" where
  r_init: "dbus_mqtt_init env portal_id reg names = (Inr (), s) \<Longrightarrow>
           list_all bus_name_ok names \<Longrightarrow> reachable s"
| r_socket: "reachable s \<Longrightarrow> reachable (s\<lparr>socket_watch := b\<rparr>)"
| r_connect: "reachable s \<Longrightarrow> reachable (snd (on_connect env s))"
| r_message: "reachable s \<Longrightarrow> reachable (snd (on_message env msg_topic payload s))"
| r_owner: "reachable s \<Longrightarrow> bus_name_ok name \<Longrightarrow>
            reachable (snd (dbus_name_owner_changed env name oldowner newowner s))"
| r_changed: "reachable s \<Longrightarrow>
              reachable (snd (on_dbus_value_changed env changes path service_id s))"
| r_timer: "reachable s \<Longrightarrow> reachable (snd (timer_service_queue env now now' s))"
| r_idle: "reachable s \<Longrightarrow> reachable (snd (service_queue env now 5 s))"
| r_unpublish_all: "reachable s \<Longrightarrow> reachable (snd (unpublish_all s))"
| r_unpublish_all_py2: "reachable s \<Longrightarrow> reachable (snd (unpublish_all_py2 s))"

text \<open>
  Any number of drains in a row, as the timer and the idle callback produce them; each run
  reads the clock once.
\<close>

fun service_queue_runs :: "env \<Rightarrow> real list \<Rightarrow> state \<Rightarrow> state" where
  "service_queue_runs env [] s = s"
| "service_queue_runs env (now # rest) s =
     service_queue_runs env rest (snd (service_queue env now 5 s))"

subsection \<open>What holds of the tables in every state\<close>

text \<open>
  A mirror entry is well formed for portal id \<open>sid\<close> when its uid is a bus name followed by
  a path that starts with a slash, the pair of the name's service type and the path is not
  blocked, and its topic is \<^verbatim>\<open>N/{sid}/{service_type}/{instance}{path}\<close> where the instance
  is an integer in decimal. A list of queue entries has no tombstone for the serial number
  when no topic ending in \<^verbatim>\<open>/system/0/Serial\<close> carries \<^verbatim>\<open>None\<close>. The registries hold bus
  names under the vendor prefix, and every key of the service registry is the service type
  of its value, a slash and an integer in decimal. No uid occurs twice in the mirror table.
\<close>

definition entry_ok :: "string \<Rightarrow> string \<times> string \<Rightarrow> bool" where
  "entry_ok sid e =
     (\<exists>service i path ty.
        bus_name_ok service \<and> startswith path ''/'' \<and> fst e = service @ path \<and>
        get_service_type service = Inr ty \<and> (ty, path) \<notin> blocked_items \<and>
        snd e = ''N/'' @ sid @ ''/'' @ ty @ ''/'' @ show_int i @ path)"

definition no_serial_tombstone :: "(string \<times> string option) list \<Rightarrow> bool" where
  "no_serial_tombstone q = (\<forall>(t, p) \<in> set q. endswith t ''/system/0/Serial'' \<longrightarrow> p \<noteq> None)"

definition registry_ok :: "state \<Rightarrow> bool" where
  "registry_ok s =
     ((\<forall>(k, v) \<in> set (services s).
         bus_name_ok v \<and> (\<exists>ty i. get_service_type v = Inr ty \<and> k = ty @ ''/'' @ show_int i)) \<and>
      (\<forall>(k, v) \<in> set (service_ids s). bus_name_ok v \<and> startswith v ServicePrefix))"

definition mirror_inv :: "string \<Rightarrow> state \<Rightarrow> bool" where
  "mirror_inv sid s =
     (system_id s = sid \<and> (\<forall>e \<in> set (topics s). entry_ok sid e) \<and>
      distinct (map fst (topics s)) \<and>
      no_serial_tombstone (queue s) \<and> no_serial_tombstone (published s) \<and> registry_ok s)"

subsection \<open>A small installation, for concrete runs\<close>

text \<open>
  One service, \<^verbatim>\<open>com.victronenergy.system\<close>, owned by \<^verbatim>\<open>:1.5\<close>, with device instance 0 and
  a listing of two items. The JSON functions stand in for the library on the few values
  used here.
\<close>

definition demo_env :: env where
  "demo_env =
     \<lparr>get_dbus_value = (\<lambda>service path.
          if path = ''/DeviceInstance'' then Inr (PyInt 0)
          else if path = ''/''
            then Inr (PyDict [(''/Serial'', PyStr ''abc''), (''Ac/Power'', PyInt 5)])
          else Inr (PyInt 7)),
       set_dbus_value = (\<lambda>service path v. Inr ()),
       introspect_xml = (\<lambda>service path. Inl (DBusException UnknownMethod)),
       get_name_owner = (\<lambda>service. Inr '':1.5''),
       unwrap_dbus_value = (\<lambda>v. v),
       json_dumps = (\<lambda>v. case v of PyInt i \<Rightarrow> show_int i | PyStr x \<Rightarrow> x | _ \<Rightarrow> ''null''),
       json_loads_value =
         (\<lambda>p. case int_of_string p of Inl e \<Rightarrow> Inl e | Inr i \<Rightarrow> Inr (PyInt i)),
       client_publish_ok = (\<lambda>topic v. True),
       recursion_limit = 1000\<rparr>"

text \<open>After \<^verbatim>\<open>__init__\<close>; with the socket up; and after the broker connection is reported.\<close>

definition boot_state :: state where
  "boot_state = snd (dbus_mqtt_init demo_env ''abc'' None [''com.victronenergy.system''])"

definition demo_state :: state where
  "demo_state = boot_state\<lparr>socket_watch := True\<rparr>"

definition pending_state :: state where
  "pending_state = snd (on_connect demo_env demo_state)"

text \<open>
  The same installation with a \<^verbatim>\<open>vebus\<close> service in place of the system service, and the
  first installation after one drain and a second connection report.
\<close>

definition vebus_state :: state where
  "vebus_state = snd (dbus_mqtt_init demo_env ''abc'' None [''com.victronenergy.vebus''])"

definition republished_state :: state where
  "republished_state = snd (on_connect demo_env (snd (service_queue demo_env 2 5 pending_state)))"

text \<open>
  The object before any service is on the bus; and three buses on which reads fail: with
  \<^verbatim>\<open>NoReply\<close> once the device instance has been read, with \<^verbatim>\<open>ServiceUnknown\<close> from the
  first read on, and with an error that is not one of the three transient ones.
\<close>

definition idle_state :: state where
  "idle_state = snd (dbus_mqtt_init demo_env ''abc'' None [])"

definition noreply_env :: env where
  "noreply_env = demo_env\<lparr>get_dbus_value := (\<lambda>service path.
      if path = ''/DeviceInstance'' then Inr (PyInt 0) else Inl (DBusException NoReply))\<rparr>"

definition gone_env :: env where
  "gone_env = demo_env\<lparr>get_dbus_value := (\<lambda>service path. Inl (DBusException ServiceUnknown))\<rparr>"

definition denied_env :: env where
  "denied_env = demo_env\<lparr>get_dbus_value := (\<lambda>service path.
      Inl (DBusException ''org.freedesktop.DBus.Error.AccessDenied''))\<rparr>"

text \<open>
  A \<^verbatim>\<open>vebus\<close> service that goes away while \<^verbatim>\<open>__init__\<close> scans it: its owner has been
  registered, and the scan is given up at the first read.
\<close>

definition orphan_state :: state where
  "orphan_state = snd (dbus_mqtt_init gone_env ''abc'' None [''com.victronenergy.vebus''])"

text \<open>
  The first installation after its service has left the bus, and the second one with the
  socket up.
\<close>

definition cleared_state :: state where
  "cleared_state =
     snd (dbus_name_owner_changed demo_env ''com.victronenergy.system'' '':1.5'' [] demo_state)"

definition live_state :: state where
  "live_state = vebus_state\<lparr>socket_watch := True\<rparr>"

text \<open>
  The \<^verbatim>\<open>vebus\<close> service of \<open>vebus_state\<close> passes to a new owner, \<^verbatim>\<open>:1.9\<close>, and from then on
  reports device instance 1 and a listing with \<^verbatim>\<open>/Foo\<close> in it; after that a change signal
  of the new owner arrives for \<^verbatim>\<open>/Bar\<close>, a path not seen before.
\<close>

definition moved_env :: env where
  "moved_env = demo_env\<lparr>get_dbus_value := (\<lambda>service path.
        if path = ''/DeviceInstance'' then Inr (PyInt 1)
        else if path = ''/'' then Inr (PyDict [(''/Serial'', PyStr ''abc''), (''/Foo'', PyInt 3)])
        else Inr (PyInt 7)),
      get_name_owner := (\<lambda>service. Inr '':1.9'')\<rparr>"

definition moved_state :: state where
  "moved_state =
     snd (dbus_name_owner_changed moved_env ''com.victronenergy.vebus'' '':1.5'' '':1.9''
            vebus_state)"

definition drifted_state :: state where
  "drifted_state =
     snd (on_dbus_value_changed moved_env [(''Value'', PyInt 4)] ''/Bar'' '':1.9'' moved_state)"

text \<open>
  Two services of one type, neither with a \<^verbatim>\<open>/DeviceInstance\<close>, so both get instance 0.
  Only the first lists \<^verbatim>\<open>/Level\<close>; a read of \<^verbatim>\<open>/Level\<close> is answered with 7 by both.
\<close>

definition twin_env :: env where
  "twin_env = demo_env\<lparr>get_dbus_value := (\<lambda>service path.
        if path = ''/DeviceInstance'' then Inl (DBusException UnknownObject)
        else if path = ''/''
          then Inr (PyDict (if service = ''com.victronenergy.tank.a''
                            then [(''/Level'', PyInt 5)] else []))
        else Inr (PyInt 7)),
      get_name_owner := (\<lambda>service.
        Inr (if service = ''com.victronenergy.tank.a'' then '':1.7'' else '':1.8''))\<rparr>"

definition twin_state :: state where
  "twin_state =
     (snd (dbus_mqtt_init twin_env ''abc'' None
             [''com.victronenergy.tank.a'', ''com.victronenergy.tank.b'']))\<lparr>socket_watch := True\<rparr>"

section \<open>Properties\<close>

subsection \<open>The publish queue\<close>

lemma publish_keys:
  "socket_watch s \<Longrightarrow> topic \<in> fst ` set (queue s) \<Longrightarrow>
   map fst (queue (publish env topic v s)) = map fst (queue s)"
  by (auto simp: publish_def AList.update_keys)

lemma publish_lookup:
  "socket_watch s \<Longrightarrow>
   map_of (queue (publish env topic v s)) = (map_of (queue s))(topic \<mapsto> Some (json_dumps env v))"
  by (simp add: publish_def AList.update_conv')

lemma publish_distinct:
  "distinct (map fst (queue s)) \<Longrightarrow> distinct (map fst (queue (publish env topic v s)))"
  by (simp add: publish_def AList.distinct_update)

lemma publish_socket_watch [simp]: "socket_watch (publish env topic v s) = socket_watch s"
  by (simp add: publish_def)

lemma publish_published [simp]: "published (publish env topic v s) = published s"
  by (simp add: publish_def)

text \<open>
  A drain takes some number \<open>k\<close> of entries off the head of the queue and sends those the
  client accepts, in queue order.
\<close>

lemma service_queue_loop_shape:
  "\<exists>k. queue (snd (service_queue_loop env n s)) = drop k (queue s) \<and>
       published (snd (service_queue_loop env n s)) =
         published s @ filter (\<lambda>(t, v). client_publish_ok env t v) (take k (queue s))"
proof (induction n arbitrary: s)
  case 0
  show ?case by (rule exI [of _ 0]) simp
next
  case (Suc n)
  show ?case
  proof (cases "queue s")
    case Nil
    then show ?thesis by (intro exI [of _ 0]) simp
  next
    case (Cons e rest)
    obtain topic v where e: "e = (topic, v)" by (cases e)
    let ?s1 = "if client_publish_ok env topic v
               then s\<lparr>queue := rest, published := published s @ [(topic, v)]\<rparr>
               else s\<lparr>queue := rest\<rparr>"
    from Suc.IH [of ?s1] obtain k where
      k: "queue (snd (service_queue_loop env n ?s1)) = drop k (queue ?s1)"
         "published (snd (service_queue_loop env n ?s1)) =
            published ?s1 @ filter (\<lambda>(t, v). client_publish_ok env t v) (take k (queue ?s1))"
      by blast
    show ?thesis
      using k Cons e by (intro exI [of _ "Suc k"]) (simp split: if_splits)
  qed
qed

lemma service_queue_runs_shape:
  "\<exists>k. queue (service_queue_runs env nows s) = drop k (queue s) \<and>
       published (service_queue_runs env nows s) =
         published s @ filter (\<lambda>(t, v). client_publish_ok env t v) (take k (queue s))"
proof (induction nows arbitrary: s)
  case Nil
  show ?case by (rule exI [of _ 0]) simp
next
  case (Cons now rest)
  let ?s1 = "snd (service_queue env now 5 s)"
  from service_queue_loop_shape [of env 5 "s\<lparr>last_queue_run := now\<rparr>"] obtain j where
    j: "queue ?s1 = drop j (queue s)"
       "published ?s1 = published s @ filter (\<lambda>(t, v). client_publish_ok env t v) (take j (queue s))"
    by (auto simp: service_queue_def)
  from Cons.IH [of ?s1] obtain k where
    k: "queue (service_queue_runs env rest ?s1) = drop k (queue ?s1)"
       "published (service_queue_runs env rest ?s1) =
          published ?s1 @ filter (\<lambda>(t, v). client_publish_ok env t v) (take k (queue ?s1))"
    by blast
  have "take (j + k) (queue s) = take j (queue s) @ take k (drop j (queue s))"
    by (simp add: take_add)
  with j k show ?case
    by (intro exI [of _ "j + k"]) (simp add: add.commute)
qed

lemma distinct_keys_filter_le1:
  "distinct (map fst xs) \<Longrightarrow> length (filter (\<lambda>e. fst e = t) xs) \<le> 1"
  by (induction xs) (auto simp: filter_empty_conv image_iff)

lemma distinct_keys_filter_eq1:
  "distinct (map fst xs) \<Longrightarrow> t \<in> fst ` set xs \<Longrightarrow> length (filter (\<lambda>e. fst e = t) xs) = 1"
  by (induction xs) (auto simp: filter_empty_conv image_iff)

text \<open>
  C4, as the code has it. \<^verbatim>\<open>self.queue[topic] = ...\<close> on a topic that is already pending
  replaces the payload and leaves every key where it was: the order in which the queue
  drains is unchanged, and no other topic's payload is touched. The entry is not moved to
  the tail.
\<close>

theorem publish_pending_topic_keeps_position:
  assumes "socket_watch s" and "topic \<in> fst ` set (queue s)"
  shows "map fst (queue (publish env topic v s)) = map fst (queue s)
       \<and> map_of (queue (publish env topic v s)) topic = Some (Some (json_dumps env v))
       \<and> (\<forall>t. t \<noteq> topic \<longrightarrow>
            map_of (queue (publish env topic v s)) t = map_of (queue s) t)"
  using assms by (simp add: publish_keys publish_lookup)

theorem publish_pending_topic_keeps_position_witness:
  "socket_watch pending_state
   \<and> ''N/abc/system/0/Ac/Power'' \<in> fst ` set (queue pending_state)
   \<and> map fst (queue (publish demo_env ''N/abc/system/0/Ac/Power'' (PyInt 9) pending_state))
       = map fst (queue pending_state)
   \<and> map_of (queue (publish demo_env ''N/abc/system/0/Ac/Power'' (PyInt 9) pending_state))
       ''N/abc/system/0/Ac/Power'' = Some (Some (json_dumps demo_env (PyInt 9)))
   \<and> ''N/abc/system/0/Serial'' \<noteq> ''N/abc/system/0/Ac/Power''
   \<and> map_of (queue (publish demo_env ''N/abc/system/0/Ac/Power'' (PyInt 9) pending_state))
       ''N/abc/system/0/Serial''
       = map_of (queue pending_state) ''N/abc/system/0/Serial''"
proof -
  have h1: "socket_watch pending_state"
    by code_simp
  have h2: "''N/abc/system/0/Ac/Power'' \<in> fst ` set (queue pending_state)"
    by code_simp
  have h3: "''N/abc/system/0/Serial'' \<noteq> ''N/abc/system/0/Ac/Power''"
    by simp
  note T = publish_pending_topic_keeps_position [OF h1 h2, of demo_env "PyInt 9"]
  note c1 = conjunct1 [OF T]
  note c2 = conjunct1 [OF conjunct2 [OF T]]
  note c3 = conjunct2 [OF conjunct2 [OF T], rule_format, OF h3]
  show ?thesis
    by (intro conjI h1 h2 h3 c1 c2 c3)
qed

text \<open>
  C4 as stated fails: with two topics pending, enqueueing the first one again leaves it
  at the head of the queue, so it is drained first, not last.
\<close>

theorem publish_pending_topic_moves_to_tail_counterexample:
  "socket_watch pending_state
   \<and> map_of (queue pending_state) ''N/abc/system/0/Ac/Power'' = Some (Some ''5'')
   \<and> queue (publish demo_env ''N/abc/system/0/Ac/Power'' (PyInt 9) pending_state)
       = [(''N/abc/system/0/Ac/Power'', Some ''9''), (''N/abc/system/0/Serial'', Some ''abc'')]
   \<and> fst (last (queue (publish demo_env ''N/abc/system/0/Ac/Power'' (PyInt 9) pending_state)))
       \<noteq> ''N/abc/system/0/Ac/Power''"
  by code_simp

text \<open>
  C5. Two enqueues of one topic with no drain between them leave exactly one queue entry
  for the topic, holding the later payload; whatever number of drains follows, the
  publishes they add for the topic are at most one, and it carries the later payload.
  The queue is a dictionary, so its keys are distinct.
\<close>

theorem two_enqueues_one_publish:
  assumes sw: "socket_watch s" and dist: "distinct (map fst (queue s))"
  shows "length (filter (\<lambda>e. fst e = topic)
                   (queue (publish env topic v2 (publish env topic v1 s)))) = 1
       \<and> map_of (queue (publish env topic v2 (publish env topic v1 s))) topic
           = Some (Some (json_dumps env v2))
       \<and> length (filter (\<lambda>e. fst e = topic)
                   (drop (length (published s))
                      (published (service_queue_runs env nows
                         (publish env topic v2 (publish env topic v1 s)))))) \<le> 1
       \<and> (\<forall>p. (topic, p) \<in> set (drop (length (published s))
                      (published (service_queue_runs env nows
                         (publish env topic v2 (publish env topic v1 s)))))
              \<longrightarrow> p = Some (json_dumps env v2))"
proof -
  let ?s2 = "publish env topic v2 (publish env topic v1 s)"
  have d2: "distinct (map fst (queue ?s2))"
    using dist by (simp add: publish_distinct)
  have l2: "map_of (queue ?s2) topic = Some (Some (json_dumps env v2))"
    using sw by (simp add: publish_lookup)
  then have in2: "topic \<in> fst ` set (queue ?s2)"
    by (metis domI dom_map_of_conv_image_fst)
  obtain k where k: "published (service_queue_runs env nows ?s2) =
      published ?s2 @ filter (\<lambda>(t, v). client_publish_ok env t v) (take k (queue ?s2))"
    using service_queue_runs_shape [of env nows ?s2] by blast
  let ?sent = "filter (\<lambda>(t, v). client_publish_ok env t v) (take k (queue ?s2))"
  have sent: "drop (length (published s)) (published (service_queue_runs env nows ?s2)) = ?sent"
    using k by simp
  have dk: "distinct (map fst ?sent)"
    using d2 by (simp add: distinct_map_filter distinct_take take_map [symmetric])
  have sub: "set ?sent \<subseteq> set (queue ?s2)"
    by (auto dest: in_set_takeD)
  have p: "\<forall>p. (topic, p) \<in> set ?sent \<longrightarrow> p = Some (json_dumps env v2)"
    using sub d2 l2 by (auto dest!: subsetD map_of_is_SomeI [OF d2])
  show ?thesis
    using distinct_keys_filter_eq1 [OF d2 in2] l2 distinct_keys_filter_le1 [OF dk] p
    unfolding sent by blast
qed

theorem two_enqueues_one_publish_witness:
  "socket_watch pending_state \<and> distinct (map fst (queue pending_state))
   \<and> length (filter (\<lambda>e. fst e = ''N/abc/system/0/Ac/Power'')
        (queue (publish demo_env ''N/abc/system/0/Ac/Power'' (PyInt 7)
                  (publish demo_env ''N/abc/system/0/Ac/Power'' (PyInt 6) pending_state)))) = 1
   \<and> published (service_queue_runs demo_env [1, 2]
        (publish demo_env ''N/abc/system/0/Ac/Power'' (PyInt 7)
           (publish demo_env ''N/abc/system/0/Ac/Power'' (PyInt 6) pending_state)))
       = [(''N/abc/system/0/Ac/Power'', Some ''7''), (''N/abc/system/0/Serial'', Some ''abc'')]
   \<and> (''N/abc/system/0/Ac/Power'', Some ''7'') \<in> set (drop (length (published pending_state))
          (published (service_queue_runs demo_env [1, 2]
             (publish demo_env ''N/abc/system/0/Ac/Power'' (PyInt 7)
                (publish demo_env ''N/abc/system/0/Ac/Power'' (PyInt 6) pending_state)))))
   \<and> Some ''7'' = Some (json_dumps demo_env (PyInt 7))"
proof -
  have h1: "socket_watch pending_state"
    by code_simp
  have h2: "distinct (map fst (queue pending_state))"
    by code_simp
  have run: "published (service_queue_runs demo_env [1, 2]
        (publish demo_env ''N/abc/system/0/Ac/Power'' (PyInt 7)
           (publish demo_env ''N/abc/system/0/Ac/Power'' (PyInt 6) pending_state)))
       = [(''N/abc/system/0/Ac/Power'', Some ''7''), (''N/abc/system/0/Serial'', Some ''abc'')]"
    by code_simp
  have sent: "(''N/abc/system/0/Ac/Power'', Some ''7'') \<in> set (drop (length (published pending_state))
          (published (service_queue_runs demo_env [1, 2]
             (publish demo_env ''N/abc/system/0/Ac/Power'' (PyInt 7)
                (publish demo_env ''N/abc/system/0/Ac/Power'' (PyInt 6) pending_state)))))"
    by code_simp
  note T = two_enqueues_one_publish [OF h1 h2, of "''N/abc/system/0/Ac/Power''" demo_env "PyInt 7"
      "PyInt 6" "[1, 2]"]
  note c1 = conjunct1 [OF T]
  note c4 = conjunct2 [OF conjunct2 [OF conjunct2 [OF T]], rule_format, OF sent]
  show ?thesis
    by (intro conjI h1 h2 c1 run sent c4)
qed

subsection \<open>Loops of a scan keep what each step keeps\<close>

lemma set_update_subset: "set (AList.update k v al) \<subseteq> insert (k, v) (set al)"
  by (induction al) auto

lemma set_delete_subset: "set (AList.delete k al) \<subseteq> set al"
  by (auto simp: AList.delete_eq)

lemma update_absent: "map_of al k = None \<Longrightarrow> AList.update k v al = al @ [(k, v)]"
  by (induction al) (auto split: if_splits)

text \<open>Whatever holds before a scan loop and survives each item added and each publish holds after it.\<close>

lemma scan_items_preserves:
  assumes pub: "\<And>t v s. P s \<Longrightarrow> P (publish env t v s)"
    and add: "\<And>path v s. P s \<Longrightarrow> P (snd (add_item service (InstInt di) path v s))"
  shows "P s \<Longrightarrow> P (snd (scan_items env service di pub items s))"
proof (induction items arbitrary: s)
  case Nil
  then show ?case by simp
next
  case (Cons item rest)
  obtain path w where item: "item = (path, w)" by (cases item)
  let ?v = "unwrap_dbus_value env w"
  obtain r s1 where r: "add_item service (InstInt di) path ?v s = (r, s1)"
    by (cases "add_item service (InstInt di) path ?v s")
  have s1: "P s1"
    using add [OF Cons.prems, of path ?v] r by simp
  show ?case
  proof (cases r)
    case (Inl e)
    with r s1 item show ?thesis by simp
  next
    case (Inr topic)
    show ?thesis
    proof (cases topic)
      case None
      with Inr r item Cons.IH [OF s1] show ?thesis by simp
    next
      case (Some t)
      have "P (if pub then publish env t ?v s1 else s1)"
        using s1 pub by simp
      from Cons.IH [OF this] Some Inr r item show ?thesis by simp
    qed
  qed
qed

lemma introspect_interfaces_preserves:
  assumes pub: "\<And>t v s. P s \<Longrightarrow> P (publish env t v s)"
    and add: "\<And>path v s. P s \<Longrightarrow> P (snd (add_item service (InstInt di) path v s))"
  shows "P s \<Longrightarrow> P (snd (introspect_interfaces env service di path pub ifaces s))"
proof (induction ifaces arbitrary: s)
  case Nil
  then show ?case by simp
next
  case (Cons iface rest)
  show ?case
  proof (cases "iface = Some ''com.victronenergy.BusItem''")
    case False
    with Cons show ?thesis by simp
  next
    case True
    show ?thesis
    proof (cases "get_dbus_value env service path")
      case (Inl e)
      with True Cons.prems show ?thesis by simp
    next
      case (Inr v)
      obtain r s1 where r: "add_item service (InstInt di) path v s = (r, s1)"
        by (cases "add_item service (InstInt di) path v s")
      have s1: "P s1"
        using add [OF Cons.prems, of path v] r by simp
      show ?thesis
      proof (cases r)
        case (Inl e)
        with r s1 True Inr show ?thesis by simp
      next
        case r': (Inr topic)
        show ?thesis
        proof (cases topic)
          case None
          with r' r True Inr Cons.IH [OF s1] show ?thesis by simp
        next
          case (Some t)
          have "P (if pub then publish env t v s1 else s1)"
            using s1 pub by simp
          from Cons.IH [OF this] Some r' r True Inr show ?thesis by simp
        qed
      qed
    qed
  qed
qed

lemma introspect_nodes_preserves:
  assumes rec: "\<And>path s. P s \<Longrightarrow> P (snd (introspect d env service di path pub s))"
  shows "P s \<Longrightarrow> P (snd (introspect_nodes d env service di path pub children s))"
proof (induction children arbitrary: s)
  case Nil
  then show ?case by simp
next
  case (Cons child rest)
  show ?case
  proof (cases child)
    case None
    with Cons show ?thesis by simp
  next
    case (Some name)
    let ?p = "if endswith path ''/'' then path @ name else path @ ''/'' @ name"
    obtain r s1 where r: "introspect d env service di ?p pub s = (r, s1)"
      by (cases "introspect d env service di ?p pub s")
    have s1: "P s1"
      using rec [OF Cons.prems, of ?p] r by simp
    show ?thesis
    proof (cases r)
      case (Inl e)
      with r s1 Some show ?thesis by simp
    next
      case (Inr u)
      with Cons.IH [OF s1] r Some show ?thesis by simp
    qed
  qed
qed

lemma introspect_preserves:
  assumes pub: "\<And>t v s. P s \<Longrightarrow> P (publish env t v s)"
    and add: "\<And>path v s. P s \<Longrightarrow> P (snd (add_item service (InstInt di) path v s))"
  shows "P s \<Longrightarrow> P (snd (introspect d env service di path pub s))"
proof (induction d arbitrary: path s)
  case 0
  then show ?case by simp
next
  case (Suc d)
  show ?case
  proof (cases "introspect_xml env service path")
    case (Inl e)
    with Suc.prems show ?thesis by simp
  next
    case (Inr tree)
    show ?thesis
    proof (cases "length (nodes tree) = 0")
      case True
      with Inr introspect_interfaces_preserves [of P env service di, OF pub add Suc.prems]
      show ?thesis by simp
    next
      case False
      with Inr introspect_nodes_preserves [of P d env service di pub, OF Suc.IH Suc.prems]
      show ?thesis by simp
    qed
  qed
qed

lemma scan_listing_preserves:
  assumes pub: "\<And>t v s. P s \<Longrightarrow> P (publish env t v s)"
    and add: "\<And>path v s. P s \<Longrightarrow> P (snd (add_item service (InstInt di) path v s))"
    and s: "P s"
  shows "P (snd (scan_listing env service di pub r s))"
proof (cases r)
  case (Inl e)
  then show ?thesis
    using s introspect_preserves [of P env service di, OF pub add s]
    by (cases e) simp_all
next
  case (Inr v)
  then show ?thesis
    using s scan_items_preserves [of P env service di, OF pub add s]
    by (cases v) simp_all
qed

lemma catch_transient_snd [simp]: "snd (catch_transient r) = snd r"
  by (cases r rule: catch_transient.cases) simp_all

lemma scan_dbus_service_preserves:
  assumes pub: "\<And>t v s. P s \<Longrightarrow> P (publish env t v s)"
    and add: "\<And>di path v s. P s \<Longrightarrow> P (snd (add_item service (InstInt di) path v s))"
    and reg: "\<And>k s. P s \<Longrightarrow> get_service_type service \<noteq> Inl (Exception ''No victron service'')
                \<Longrightarrow> (\<exists>t i. get_service_type service = Inr t \<and> k = t @ ''/'' @ show_int i)
                \<Longrightarrow> P (s\<lparr>services := AList.update k service (services s)\<rparr>)"
    and s: "P s"
  shows "P (snd (scan_dbus_service env service pub s))"
proof -
  have "P (snd (scan_body env service pub s))"
  proof (cases "read_device_instance (get_dbus_value env service ''/DeviceInstance'')")
    case (Inl e)
    with s show ?thesis by (simp add: scan_body_def)
  next
    case (Inr di)
    show ?thesis
    proof (cases "get_service_type service")
      case (Inl e)
      with Inr s show ?thesis by (simp add: scan_body_def get_short_service_name_def)
    next
      case t: (Inr t)
      let ?s1 = "s\<lparr>services := AList.update (t @ ''/'' @ show_int di) service (services s)\<rparr>"
      have "P ?s1"
        using reg [OF s] t by auto
      from scan_listing_preserves [of P env service di, OF pub add this] Inr t
      show ?thesis by (simp add: scan_body_def get_short_service_name_def)
    qed
  qed
  then show ?thesis by (simp add: scan_dbus_service_def)
qed

subsection \<open>The tables stay well formed\<close>

lemma guarded_update:
  assumes q: "\<forall>(a, b) \<in> set q. Q a \<longrightarrow> b \<noteq> None" and p: "Q t \<Longrightarrow> p \<noteq> None"
  shows "\<forall>(a, b) \<in> set (AList.update t p q). Q a \<longrightarrow> b \<noteq> None"
proof -
  have "b \<noteq> None" if in_upd: "(a, b) \<in> set (AList.update t p q)" and e: "Q a" for a b
  proof -
    from in_upd have "(a, b) = (t, p) \<or> (a, b) \<in> set q"
      using set_update_subset [of t p q] by blast
    then show ?thesis
      using p q e by blast
  qed
  then show ?thesis by blast
qed

lemma no_serial_tombstone_update:
  "no_serial_tombstone q \<Longrightarrow> (endswith t ''/system/0/Serial'' \<Longrightarrow> p \<noteq> None) \<Longrightarrow>
   no_serial_tombstone (AList.update t p q)"
  unfolding no_serial_tombstone_def by (rule guarded_update)

lemma no_serial_tombstone_payload:
  "no_serial_tombstone q \<Longrightarrow> no_serial_tombstone (AList.update t (Some p) q)"
  by (rule no_serial_tombstone_update) simp_all

lemma no_serial_tombstone_other:
  "no_serial_tombstone q \<Longrightarrow> \<not> endswith t ''/system/0/Serial'' \<Longrightarrow>
   no_serial_tombstone (AList.update t p q)"
  by (rule no_serial_tombstone_update) simp_all

lemma digit_char_digit: "d < 10 \<Longrightarrow> digit_char d \<in> set ''0123456789''"
  unfolding digit_char_def by (rule nth_mem) simp

lemma show_nat_no_slash: "CHR ''/'' \<notin> set (show_nat n)"
proof (induction n rule: show_nat.induct)
  case (1 n)
  show ?case
  proof (cases "n < 10")
    case True
    with digit_char_digit [of n] show ?thesis
      by (subst show_nat.simps) auto
  next
    case False
    then have "n mod 10 < 10" by simp
    from digit_char_digit [OF this] 1 False show ?thesis
      by (subst show_nat.simps) auto
  qed
qed

lemma show_int_no_slash: "CHR ''/'' \<notin> set (show_int i)"
  by (simp add: show_int_def show_nat_no_slash)

lemma py_split_pieces: "w \<in> set (py_split c s) \<Longrightarrow> set w \<subseteq> set s"
proof (induction s arbitrary: w)
  case Nil
  then show ?case by simp
next
  case (Cons x xs)
  show ?case
  proof (cases "x = c")
    case True
    with Cons show ?thesis by auto
  next
    case False
    show ?thesis
    proof (cases "py_split c xs")
      case Nil
      with Cons.prems False show ?thesis by simp
    next
      case (Cons u us)
      with Cons.prems False have "w = x # u \<or> w \<in> set us" by simp
      with Cons.IH [of u] Cons.IH [of w] Cons show ?thesis by auto
    qed
  qed
qed

lemma py_split_none: "c \<notin> set s \<Longrightarrow> py_split c s = [s]"
  by (induction s) auto

lemma py_split_cut: "c \<notin> set a \<Longrightarrow> py_split c (a @ c # b) = a # py_split c b"
  by (induction a) auto

lemma service_type_no_slash:
  assumes ok: "bus_name_ok service" and ty: "get_service_type service = Inr ty"
  shows "CHR ''/'' \<notin> set ty"
proof -
  from ty have "ty \<in> set (py_split CHR ''.'' service)"
    by (auto simp: get_service_type_def split: if_splits list.splits)
  from py_split_pieces [OF this] ok show ?thesis
    by (auto simp: bus_name_ok_def)
qed

lemma registry_key_split:
  assumes ok: "bus_name_ok service" and ty: "get_service_type service = Inr ty"
  shows "py_split CHR ''/'' (ty @ ''/'' @ show_int i) = [ty, show_int i]"
proof -
  have "py_split CHR ''/'' (ty @ CHR ''/'' # show_int i) = ty # py_split CHR ''/'' (show_int i)"
    using service_type_no_slash [OF ok ty] by (rule py_split_cut)
  also have "py_split CHR ''/'' (show_int i) = [show_int i]"
    using show_int_no_slash by (rule py_split_none)
  finally show ?thesis by simp
qed

lemma inv_publish: "mirror_inv sid s \<Longrightarrow> mirror_inv sid (publish env t v s)"
  by (simp add: mirror_inv_def publish_def no_serial_tombstone_payload registry_ok_def)

lemma inv_unpublish: "mirror_inv sid s \<Longrightarrow> mirror_inv sid (unpublish t s)"
  by (simp add: mirror_inv_def unpublish_def no_serial_tombstone_other registry_ok_def)

lemma prefixed_service_type:
  "get_service_type service = Inr ty \<Longrightarrow> startswith service ServicePrefix"
  by (simp add: get_service_type_def split: if_splits)

lemma inv_new_entry:
  assumes inv: "mirror_inv sid s" and e: "entry_ok sid (uid, topic)"
  shows "mirror_inv sid (s\<lparr>topics := AList.update uid topic (topics s),
                            values' := AList.update topic v (values' s)\<rparr>)"
proof -
  have "\<forall>e \<in> set (AList.update uid topic (topics s)). entry_ok sid e"
  proof
    fix x assume "x \<in> set (AList.update uid topic (topics s))"
    then have "x = (uid, topic) \<or> x \<in> set (topics s)"
      using set_update_subset [of uid topic "topics s"] by blast
    then show "entry_ok sid x"
      using e inv unfolding mirror_inv_def by blast
  qed
  with inv show ?thesis
    by (simp add: mirror_inv_def registry_ok_def AList.distinct_update)
qed

lemma add_item_cases:
  "snd (add_item service di path v s) = s \<or>
   (\<exists>ty p. startswith p ''/'' \<and> get_service_type service = Inr ty \<and> (ty, p) \<notin> blocked_items \<and>
      snd (add_item service di path v s) =
        s\<lparr>topics := AList.update (service @ p)
                       (''N/'' @ system_id s @ ''/'' @ ty @ ''/'' @ format_instance di @ p) (topics s),
          values' := AList.update
                       (''N/'' @ system_id s @ ''/'' @ ty @ ''/'' @ format_instance di @ p) v
                       (values' s)\<rparr>)"
proof -
  define p where "p = (if \<not> startswith path ''/'' then ''/'' @ path else path)"
  have sw: "startswith p ''/''"
    by (simp add: p_def startswith_def)
  have unf: "add_item service di path v s =
     (case map_of (topics s) (service @ p) of
           Some r \<Rightarrow> (Inr (Some r), s)
         | None \<Rightarrow>
             (case get_service_type service of
                Inl e \<Rightarrow> (Inl e, s)
              | Inr service_type \<Rightarrow>
                  if (service_type, p) \<in> blocked_items then (Inr None, s)
                  else
                    (Inr (Some (''N/'' @ system_id s @ ''/'' @ service_type @ ''/''
                           @ format_instance di @ p)),
                         s\<lparr>topics := AList.update (service @ p) (''N/'' @ system_id s @ ''/'' @ service_type @ ''/''
                           @ format_instance di @ p) (topics s),
                           values' := AList.update (''N/'' @ system_id s @ ''/'' @ service_type @ ''/''
                           @ format_instance di @ p) v (values' s)\<rparr>)))"
    unfolding add_item_def Let_def p_def by (rule refl)
  show ?thesis
  proof (cases "map_of (topics s) (service @ p)")
    case (Some r)
    then show ?thesis unfolding unf by simp
  next
    case None
    show ?thesis
    proof (cases "get_service_type service")
      case (Inl e)
      with None show ?thesis unfolding unf by simp
    next
      case (Inr ty)
      show ?thesis
      proof (cases "(ty, p) \<in> blocked_items")
        case True
        with None Inr show ?thesis unfolding unf by simp
      next
        case False
        have "snd (add_item service di path v s) =
          s\<lparr>topics := AList.update (service @ p)
                       (''N/'' @ system_id s @ ''/'' @ ty @ ''/'' @ format_instance di @ p) (topics s),
            values' := AList.update
                       (''N/'' @ system_id s @ ''/'' @ ty @ ''/'' @ format_instance di @ p) v
                       (values' s)\<rparr>"
          using None Inr False unfolding unf by simp
        with sw Inr False show ?thesis by blast
      qed
    qed
  qed
qed

lemma inv_add_item:
  assumes inv: "mirror_inv sid s" and ok: "bus_name_ok service"
    and fmt: "format_instance di = show_int i"
  shows "mirror_inv sid (snd (add_item service di path v s))"
proof -
  from add_item_cases [of service di path v s]
  consider "snd (add_item service di path v s) = s"
    | ty p where "startswith p ''/''" "get_service_type service = Inr ty" "(ty, p) \<notin> blocked_items"
        "snd (add_item service di path v s) =
          s\<lparr>topics := AList.update (service @ p)
                       (''N/'' @ system_id s @ ''/'' @ ty @ ''/'' @ format_instance di @ p) (topics s),
            values' := AList.update
                       (''N/'' @ system_id s @ ''/'' @ ty @ ''/'' @ format_instance di @ p) v
                       (values' s)\<rparr>"
    by blast
  then show ?thesis
  proof cases
    case 1
    with inv show ?thesis by simp
  next
    case (2 ty p)
    have sid: "system_id s = sid"
      using inv by (simp add: mirror_inv_def)
    have "entry_ok sid (service @ p, ''N/'' @ sid @ ''/'' @ ty @ ''/'' @ format_instance di @ p)"
      unfolding entry_ok_def fst_conv snd_conv fmt using ok 2(1-3) by blast
    from inv_new_entry [OF inv this] 2(4) sid show ?thesis by simp
  qed
qed

lemma inv_register:
  assumes inv: "mirror_inv sid s" and ok: "bus_name_ok service"
    and k: "\<exists>ty i. get_service_type service = Inr ty \<and> k = ty @ ''/'' @ show_int i"
  shows "mirror_inv sid (s\<lparr>services := AList.update k service (services s)\<rparr>)"
proof -
  define good :: "string \<times> string \<Rightarrow> bool" where
    "good = (\<lambda>(k, v). bus_name_ok v \<and>
               (\<exists>ty i. get_service_type v = Inr ty \<and> k = ty @ ''/'' @ show_int i))"
  have old: "\<forall>e \<in> set (services s). good e"
    using inv by (simp add: mirror_inv_def registry_ok_def good_def)
  have new: "good (k, service)"
    using ok k by (simp add: good_def)
  have "\<forall>e \<in> set (AList.update k service (services s)). good e"
    using set_update_subset [of k service "services s"] old new by blast
  then have "\<forall>(k', v) \<in> set (AList.update k service (services s)).
          bus_name_ok v \<and> (\<exists>ty i. get_service_type v = Inr ty \<and> k' = ty @ ''/'' @ show_int i)"
    by (simp add: good_def)
  with inv show ?thesis
    by (simp add: mirror_inv_def registry_ok_def)
qed

lemma inv_scan:
  assumes inv: "mirror_inv sid s" and ok: "bus_name_ok service"
  shows "mirror_inv sid (snd (scan_dbus_service env service pub s))"
proof (rule scan_dbus_service_preserves [of "mirror_inv sid"])
  show "\<And>t v s. mirror_inv sid s \<Longrightarrow> mirror_inv sid (publish env t v s)"
    by (rule inv_publish)
  show "\<And>di path v s. mirror_inv sid s \<Longrightarrow>
          mirror_inv sid (snd (add_item service (InstInt di) path v s))"
    using ok by (rule inv_add_item [rotated]) simp
  show "mirror_inv sid (s\<lparr>services := AList.update k service (services s)\<rparr>)"
    if s: "mirror_inv sid s"
      and "get_service_type service \<noteq> Inl (Exception ''No victron service'')"
      and ex: "\<exists>t i. get_service_type service = Inr t \<and> k = t @ ''/'' @ show_int i"
    for k s
    using s ok ex by (rule inv_register)
  show "mirror_inv sid s" by (rule inv)
qed

lemma inv_owner_registered:
  assumes inv: "mirror_inv sid s" and ok: "bus_name_ok name"
    and pre: "startswith name ServicePrefix"
  shows "mirror_inv sid (s\<lparr>service_ids := AList.update owner name (service_ids s)\<rparr>)"
proof -
  have "\<forall>(k, v) \<in> set (AList.update owner name (service_ids s)).
          bus_name_ok v \<and> startswith v ServicePrefix"
    using set_update_subset [of owner name "service_ids s"] inv ok pre
    by (fastforce simp: mirror_inv_def registry_ok_def)
  with inv show ?thesis
    by (simp add: mirror_inv_def registry_ok_def)
qed

lemma inv_forget_topics:
  "mirror_inv sid s \<Longrightarrow> mirror_inv sid (snd (forget_topics xs name s))"
proof (induction xs arbitrary: s)
  case Nil
  then show ?case by simp
next
  case (Cons x xs)
  obtain path topic where x: "x = (path, topic)" by (cases x)
  show ?case
  proof (cases "startswith path (name @ ''/'')")
    case False
    with Cons x show ?thesis by simp
  next
    case True
    let ?s1 = "unpublish topic s"
    have s1: "mirror_inv sid ?s1"
      using Cons.prems by (rule inv_unpublish)
    have del: "mirror_inv sid (?s1\<lparr>topics := AList.delete path (topics ?s1)\<rparr>)"
      using s1 set_delete_subset [of path "topics ?s1"]
      by (auto simp: mirror_inv_def registry_ok_def AList.distinct_delete)
    then have del2: "mirror_inv sid (?s1\<lparr>topics := AList.delete path (topics ?s1),
        values' := AList.delete topic (values' ?s1)\<rparr>)"
      by (simp add: mirror_inv_def registry_ok_def)
    show ?thesis
      using True x s1 del Cons.IH [OF del2]
      by (simp add: py_del_def)
  qed
qed

lemma inv_forget_service:
  assumes inv: "mirror_inv sid s"
  shows "mirror_inv sid (forget_service name oldowner s)"
proof -
  have a: "\<And>al. set (AList.delete name al) \<subseteq> set (al :: (string \<times> string) list)"
    by (rule set_delete_subset)
  show ?thesis
    using inv set_delete_subset [of name "services s"]
      set_delete_subset [of oldowner "service_ids s"]
    by (auto simp: forget_service_def mirror_inv_def registry_ok_def Let_def)
qed

lemma inv_name_owner_changed:
  assumes inv: "mirror_inv sid s" and ok: "bus_name_ok name"
  shows "mirror_inv sid (snd (dbus_name_owner_changed env name oldowner newowner s))"
proof (cases "startswith name ''com.victronenergy.''")
  case False
  with inv show ?thesis by (simp add: dbus_name_owner_changed_def)
next
  case True
  then have pre: "startswith name ServicePrefix"
    by (simp add: ServicePrefix_def)
  show ?thesis
  proof (cases "newowner \<noteq> []")
    case new: True
    obtain r s1 where r: "scan_dbus_service env name True s = (r, s1)"
      by (cases "scan_dbus_service env name True s")
    have s1: "mirror_inv sid s1"
      using inv_scan [OF inv ok, of env True] r by simp
    show ?thesis
      using True new r s1 inv_owner_registered [OF s1 ok pre]
      by (cases r) (simp_all add: dbus_name_owner_changed_def)
  next
    case False
    show ?thesis
    proof (cases "oldowner \<noteq> []")
      case old: True
      obtain r s1 where r: "forget_topics (topics s) name s = (r, s1)"
        by (cases "forget_topics (topics s) name s")
      have s1: "mirror_inv sid s1"
        using inv_forget_topics [OF inv, of "topics s" name] r by simp
      show ?thesis
        using True False old r s1 inv_forget_service [OF s1]
        by (cases r) (simp_all add: dbus_name_owner_changed_def)
    next
      case old: False
      with True False inv show ?thesis by (simp add: dbus_name_owner_changed_def)
    qed
  qed
qed

lemma registry_value_ok:
  "mirror_inv sid s \<Longrightarrow> map_of (services s) k = Some service \<Longrightarrow> bus_name_ok service"
  unfolding mirror_inv_def registry_ok_def by (auto dest!: map_of_SomeD)

lemma owner_value_ok:
  "mirror_inv sid s \<Longrightarrow> map_of (service_ids s) k = Some service \<Longrightarrow> bus_name_ok service"
  unfolding mirror_inv_def registry_ok_def by (auto dest!: map_of_SomeD)

lemma inv_store_change:
  assumes inv: "mirror_inv sid s"
  shows "mirror_inv sid (snd (store_change env changes topic s))"
proof (cases "map_of changes ''Value''")
  case None
  with inv show ?thesis by (simp add: store_change_def)
next
  case (Some w)
  have "mirror_inv sid (s\<lparr>values' := AList.update topic (unwrap_dbus_value env w) (values' s)\<rparr>)"
    using inv by (simp add: mirror_inv_def registry_ok_def)
  from inv_publish [OF this] Some show ?thesis
    by (simp add: store_change_def)
qed

lemma inv_new_item_found:
  assumes inv: "mirror_inv sid s" and ok: "bus_name_ok service"
    and ty: "get_service_type service = Inr ty" and short: "short = ty @ ''/'' @ show_int i"
  shows "mirror_inv sid (snd (new_item_found env changes service path short s))"
proof -
  have sp: "py_split CHR ''/'' short = [ty, show_int i]"
    unfolding short using ok ty by (rule registry_key_split)
  obtain r s1 where r: "add_item service (InstStr (show_int i)) path PyNone s = (r, s1)"
    by (cases "add_item service (InstStr (show_int i)) path PyNone s")
  have s1: "mirror_inv sid s1"
    using inv_add_item [OF inv ok, of "InstStr (show_int i)" i path PyNone] r by simp
  show ?thesis
  proof (cases r)
    case (Inl e)
    with sp r s1 show ?thesis by (simp add: new_item_found_def)
  next
    case (Inr x)
    show ?thesis
    proof (cases "map_of (topics s1) (service @ path)")
      case None
      with Inr sp r s1 show ?thesis by (simp add: new_item_found_def)
    next
      case (Some topic)
      with Inr sp r inv_store_change [OF s1, of env changes topic]
      show ?thesis by (simp add: new_item_found_def)
    qed
  qed
qed

lemma inv_value_changed:
  assumes inv: "mirror_inv sid s"
  shows "mirror_inv sid (snd (on_dbus_value_changed env changes path service_id s))"
proof (cases "map_of (service_ids s) service_id")
  case None
  with inv show ?thesis by (simp add: on_dbus_value_changed_def)
next
  case (Some service)
  have ok: "bus_name_ok service"
    using inv Some by (rule owner_value_ok)
  show ?thesis
  proof (cases "map_of (topics s) (service @ path)")
    case topic: (Some topic)
    with Some inv_store_change [OF inv, of env changes topic] show ?thesis
      by (simp add: on_dbus_value_changed_def)
  next
    case None
    show ?thesis
    proof (cases "find (\<lambda>(service_short_name, service_name). service_name = service) (services s)")
      case none: None
      with Some None inv show ?thesis by (simp add: on_dbus_value_changed_def)
    next
      case found: (Some e)
      obtain short nm where e: "e = (short, nm)" by (cases e)
      from found e have mem: "(short, service) \<in> set (services s)" and nm: "nm = service"
        by (auto simp: find_Some_iff in_set_conv_nth)
      from inv mem obtain ty i where
        ty: "get_service_type service = Inr ty" and short: "short = ty @ ''/'' @ show_int i"
        unfolding mirror_inv_def registry_ok_def by blast
      from Some None found e inv_new_item_found [OF inv ok ty short, of env changes path]
      show ?thesis by (simp add: on_dbus_value_changed_def)
    qed
  qed
qed

lemma inv_handle_write:
  "snd (handle_write env topic payload s) = s"
  by (simp add: handle_write_def split: sum.splits prod.splits option.splits)

lemma inv_handle_read:
  assumes inv: "mirror_inv sid s"
  shows "mirror_inv sid (snd (handle_read env topic s))"
proof (cases "get_uid_by_topic topic s")
  case (Inl e)
  with inv show ?thesis by (simp add: handle_read_def)
next
  case (Inr u)
  obtain service di path where u: "u = (service, di, path)" by (cases u)
  show ?thesis
  proof (cases service)
    case None
    with Inr u inv show ?thesis by (simp add: handle_read_def)
  next
    case (Some sv)
    have ok: "bus_name_ok sv"
    proof -
      from Inr u Some obtain k where "map_of (services s) k = Some sv"
        by (auto simp: get_uid_by_topic_def split: list.splits sum.splits)
      with inv show ?thesis by (rule registry_value_ok)
    qed
    show ?thesis
    proof (cases "get_dbus_value env sv (''/'' @ path)")
      case (Inl e)
      with Inr u Some inv show ?thesis by (simp add: handle_read_def)
    next
      case v: (Inr v)
      obtain r s1 where r: "add_item sv (InstInt di) path v s = (r, s1)"
        by (cases "add_item sv (InstInt di) path v s")
      have s1: "mirror_inv sid s1"
        using inv_add_item [OF inv ok, of "InstInt di" di path v] r by simp
      show ?thesis
        using Inr u Some v r s1 inv_publish [OF s1, of env topic v]
        by (cases r) (simp_all add: handle_read_def)
    qed
  qed
qed

lemma inv_handle_request:
  assumes inv: "mirror_inv sid s"
  shows "mirror_inv sid (snd (handle_request env msg_topic payload s))"
  using inv inv_handle_read [OF inv]
  by (simp add: handle_request_def inv_handle_write split: list.splits)

lemma inv_on_message:
  assumes inv: "mirror_inv sid s"
  shows "mirror_inv sid (snd (on_message env msg_topic payload s))"
proof (cases "startswith msg_topic ''$SYS/broker/connection/''")
  case False
  with inv_handle_request [OF inv] show ?thesis by (simp add: on_message_def)
next
  case True
  have "mirror_inv sid (s\<lparr>connected_to_cloud := b\<rparr>)"
       "mirror_inv sid (s\<lparr>connected_to_cloud := b, registrations := n\<rparr>)" for b n
    using inv by (simp_all add: mirror_inv_def registry_ok_def)
  with True inv show ?thesis
    by (simp add: on_message_def split: sum.splits option.splits)
qed

lemma inv_publish_all_loop:
  "mirror_inv sid s \<Longrightarrow> mirror_inv sid (snd (publish_all_loop env ts s))"
proof (induction ts arbitrary: s)
  case Nil
  then show ?case by simp
next
  case (Cons t ts)
  show ?case
  proof (cases "map_of (values' s) t")
    case None
    with Cons.prems show ?thesis by simp
  next
    case (Some v)
    with Cons.IH [OF inv_publish [OF Cons.prems, of env t v]] show ?thesis by simp
  qed
qed

lemma inv_on_connect:
  assumes inv: "mirror_inv sid s"
  shows "mirror_inv sid (snd (on_connect env s))"
proof -
  have "mirror_inv sid (s\<lparr>subscribed := x\<rparr>)" for x
    using inv by (simp add: mirror_inv_def registry_ok_def)
  then show ?thesis
    unfolding on_connect_def publish_all_def by (rule inv_publish_all_loop)
qed

lemma inv_service_queue_loop:
  "mirror_inv sid s \<Longrightarrow> mirror_inv sid (snd (service_queue_loop env n s))"
proof (induction n arbitrary: s)
  case 0
  then show ?case by simp
next
  case (Suc n)
  show ?case
  proof (cases "queue s")
    case Nil
    with Suc.prems show ?thesis by simp
  next
    case (Cons e rest)
    obtain t p where e: "e = (t, p)" by (cases e)
    have q: "no_serial_tombstone rest" and tp: "no_serial_tombstone [(t, p)]"
      using Suc.prems Cons e by (simp_all add: mirror_inv_def no_serial_tombstone_def)
    have pub: "no_serial_tombstone (published s @ [(t, p)])"
      using Suc.prems tp by (simp add: mirror_inv_def no_serial_tombstone_def)
    have a: "mirror_inv sid (s\<lparr>queue := rest\<rparr>)"
      using Suc.prems q by (simp add: mirror_inv_def registry_ok_def)
    have b: "mirror_inv sid (s\<lparr>queue := rest, published := published s @ [(t, p)]\<rparr>)"
      using Suc.prems q pub by (simp add: mirror_inv_def registry_ok_def)
    show ?thesis
      using Cons e Suc.IH [OF a] Suc.IH [OF b] by simp
  qed
qed

lemma inv_service_queue:
  assumes inv: "mirror_inv sid s"
  shows "mirror_inv sid (snd (service_queue env now n s))"
proof -
  have "mirror_inv sid (s\<lparr>last_queue_run := now\<rparr>)"
    using inv by (simp add: mirror_inv_def registry_ok_def)
  then show ?thesis
    unfolding service_queue_def by (rule inv_service_queue_loop)
qed

lemma inv_timer:
  "mirror_inv sid s \<Longrightarrow> mirror_inv sid (snd (timer_service_queue env now now' s))"
  by (simp add: timer_service_queue_def inv_service_queue)

lemma inv_fold_unpublish:
  "mirror_inv sid s \<Longrightarrow> mirror_inv sid (fold unpublish ts s)"
  by (induction ts arbitrary: s) (simp_all add: inv_unpublish)

lemma inv_init_loop:
  "mirror_inv sid s \<Longrightarrow> list_all bus_name_ok names \<Longrightarrow>
   mirror_inv sid (snd (init_loop env names s))"
proof (induction names arbitrary: s)
  case Nil
  then show ?case by simp
next
  case (Cons name names)
  have ok: "bus_name_ok name" and oks: "list_all bus_name_ok names"
    using Cons.prems(2) by simp_all
  show ?case
  proof (cases "startswith name ''com.victronenergy.''")
    case False
    with Cons.IH [OF Cons.prems(1) oks] show ?thesis by simp
  next
    case True
    then have pre: "startswith name ServicePrefix"
      by (simp add: ServicePrefix_def)
    show ?thesis
    proof (cases "get_name_owner env name")
      case (Inl e)
      with True Cons.prems show ?thesis by simp
    next
      case (Inr owner)
      let ?s0 = "s\<lparr>service_ids := AList.update owner name (service_ids s)\<rparr>"
      have s0: "mirror_inv sid ?s0"
        using Cons.prems(1) ok pre by (rule inv_owner_registered)
      obtain r s1 where r: "scan_dbus_service env name False ?s0 = (r, s1)"
        by (cases "scan_dbus_service env name False ?s0")
      have s1: "mirror_inv sid s1"
        using inv_scan [OF s0 ok, of env False] r by simp
      show ?thesis
        using True Inr r s1 Cons.IH [OF s1 oks] by (cases r) simp_all
    qed
  qed
qed

lemma reachable_inv: "reachable s \<Longrightarrow> mirror_inv (system_id s) s"
proof (induction rule: reachable.induct)
  case (r_init env portal_id reg names s)
  let ?s0 = "\<lparr>system_id = portal_id, topics = [], values' = [], services = [], service_ids = [],
        queue = [], last_queue_run = 0, connected_to_cloud = False, registrator = reg,
        socket_watch = False, published = [], subscribed = [],
        registrations = (if reg = None then 0 else 1)\<rparr>"
  have "mirror_inv portal_id ?s0"
    by (simp add: mirror_inv_def registry_ok_def no_serial_tombstone_def)
  from inv_init_loop [OF this r_init(2), of env] r_init(1)
  have inv: "mirror_inv portal_id s"
    by (simp add: dbus_mqtt_init_def)
  then have "system_id s = portal_id"
    by (simp add: mirror_inv_def)
  with inv show ?case by simp
next
  case (r_socket s b)
  then show ?case by (simp add: mirror_inv_def registry_ok_def)
next
  case (r_connect s env)
  from inv_on_connect [OF this(2), of env] show ?case
    by (simp add: mirror_inv_def)
next
  case (r_message s env msg_topic payload)
  from inv_on_message [OF this(2), of env msg_topic payload] show ?case
    by (simp add: mirror_inv_def)
next
  case (r_owner s name env oldowner newowner)
  from inv_name_owner_changed [OF this(3) this(2), of env oldowner newowner] show ?case
    by (simp add: mirror_inv_def)
next
  case (r_changed s env changes path service_id)
  from inv_value_changed [OF this(2), of env changes path service_id] show ?case
    by (simp add: mirror_inv_def)
next
  case (r_timer s env now now')
  from inv_timer [OF this(2), of env now now'] show ?case
    by (simp add: mirror_inv_def)
next
  case (r_idle s env now)
  from inv_service_queue [OF this(2), of env now 5] show ?case
    by (simp add: mirror_inv_def)
next
  case (r_unpublish_all s)
  then show ?case by (simp add: unpublish_all_def)
next
  case (r_unpublish_all_py2 s)
  from inv_fold_unpublish [OF this(2)] show ?case
    by (simp add: unpublish_all_py2_def mirror_inv_def)
qed

subsection \<open>Splitting a uid, and the concrete states\<close>

lemma takeWhile_upto:
  "c \<notin> set a \<Longrightarrow> takeWhile (\<lambda>x. x \<noteq> c) (a @ c # r) = a"
  by (induction a) auto

lemma split_uid_unique:
  assumes a: "bus_name_ok a" and b: "bus_name_ok b"
    and p: "startswith p ''/''" and q: "startswith q ''/''" and eq: "a @ p = b @ q"
  shows "a = b \<and> p = q"
proof -
  from p obtain p' where p': "p = CHR ''/'' # p'"
    by (cases p) (simp_all add: startswith_def)
  from q obtain q' where q': "q = CHR ''/'' # q'"
    by (cases q) (simp_all add: startswith_def)
  have "takeWhile (\<lambda>c. c \<noteq> CHR ''/'') (a @ p) = a"
    using a unfolding p' bus_name_ok_def by (rule takeWhile_upto)
  moreover have "takeWhile (\<lambda>c. c \<noteq> CHR ''/'') (b @ q) = b"
    using b unfolding q' bus_name_ok_def by (rule takeWhile_upto)
  ultimately have "a = b" using eq by simp
  with eq show ?thesis by simp
qed

lemma reachable_boot_state: "reachable boot_state"
proof (rule r_init)
  show "dbus_mqtt_init demo_env ''abc'' None [''com.victronenergy.system''] = (Inr (), boot_state)"
    by code_simp
  show "list_all bus_name_ok [''com.victronenergy.system'']"
    by code_simp
qed

lemma reachable_demo_state: "reachable demo_state"
  unfolding demo_state_def using reachable_boot_state by (rule r_socket)

lemma reachable_pending_state: "reachable pending_state"
  unfolding pending_state_def using reachable_demo_state by (rule r_connect)

lemma reachable_republished_state: "reachable republished_state"
  unfolding republished_state_def
  by (intro r_connect r_idle reachable_pending_state)

lemma reachable_vebus_state: "reachable vebus_state"
proof (rule r_init)
  show "dbus_mqtt_init demo_env ''abc'' None [''com.victronenergy.vebus''] = (Inr (), vebus_state)"
    by code_simp
  show "list_all bus_name_ok [''com.victronenergy.vebus'']"
    by code_simp
qed

lemma reachable_live_state: "reachable live_state"
  unfolding live_state_def using reachable_vebus_state by (rule r_socket)

lemma reachable_cleared_state: "reachable cleared_state"
  unfolding cleared_state_def
proof (rule r_owner)
  show "reachable demo_state" by (rule reachable_demo_state)
  show "bus_name_ok ''com.victronenergy.system''" by code_simp
qed

lemma reachable_orphan_state: "reachable orphan_state"
proof (rule r_init)
  show "dbus_mqtt_init gone_env ''abc'' None [''com.victronenergy.vebus''] = (Inr (), orphan_state)"
    by code_simp
  show "list_all bus_name_ok [''com.victronenergy.vebus'']"
    by code_simp
qed

lemma reachable_moved_state: "reachable moved_state"
  unfolding moved_state_def
proof (rule r_owner)
  show "reachable vebus_state" by (rule reachable_vebus_state)
  show "bus_name_ok ''com.victronenergy.vebus''" by code_simp
qed

lemma reachable_drifted_state: "reachable drifted_state"
  unfolding drifted_state_def using reachable_moved_state by (rule r_changed)

lemma reachable_twin_state: "reachable twin_state"
  unfolding twin_state_def
proof (rule r_socket, rule r_init)
  show "dbus_mqtt_init twin_env ''abc'' None
          [''com.victronenergy.tank.a'', ''com.victronenergy.tank.b'']
        = (Inr (), snd (dbus_mqtt_init twin_env ''abc'' None
             [''com.victronenergy.tank.a'', ''com.victronenergy.tank.b'']))"
    by code_simp
  show "list_all bus_name_ok [''com.victronenergy.tank.a'', ''com.victronenergy.tank.b'']"
    by code_simp
qed

subsection \<open>A service that leaves the bus\<close>

lemma unpublish_frame [simp]:
  "topics (unpublish t s) = topics s" "values' (unpublish t s) = values' s"
  "socket_watch (unpublish t s) = socket_watch s" "services (unpublish t s) = services s"
  "service_ids (unpublish t s) = service_ids s"
  by (simp_all add: unpublish_def)

lemma fold_unpublish_frame [simp]:
  "topics (fold unpublish ts s) = topics s" "values' (fold unpublish ts s) = values' s"
  "socket_watch (fold unpublish ts s) = socket_watch s"
  "services (fold unpublish ts s) = services s"
  "service_ids (fold unpublish ts s) = service_ids s"
  by (induction ts arbitrary: s) simp_all











subsection \<open>A name that passes to a new owner\<close>

lemma add_item_appends:
  "service_ids (snd (add_item service di path v s)) = service_ids s
   \<and> queue (snd (add_item service di path v s)) = queue s
   \<and> (\<exists>ext. topics (snd (add_item service di path v s)) = topics s @ ext)"
proof -
  define q where "q = (if \<not> startswith path ''/'' then ''/'' @ path else path)"
  have unf: "add_item service di path v s =
     (case map_of (topics s) (service @ q) of
           Some r \<Rightarrow> (Inr (Some r), s)
         | None \<Rightarrow>
             (case get_service_type service of
                Inl e \<Rightarrow> (Inl e, s)
              | Inr service_type \<Rightarrow>
                  if (service_type, q) \<in> blocked_items then (Inr None, s)
                  else
                    (Inr (Some (''N/'' @ system_id s @ ''/'' @ service_type @ ''/''
                           @ format_instance di @ q)),
                         s\<lparr>topics := AList.update (service @ q) (''N/'' @ system_id s @ ''/'' @ service_type @ ''/''
                           @ format_instance di @ q) (topics s),
                           values' := AList.update (''N/'' @ system_id s @ ''/'' @ service_type @ ''/''
                           @ format_instance di @ q) v (values' s)\<rparr>)))"
    unfolding add_item_def Let_def q_def by (rule refl)
  show ?thesis
  proof (cases "map_of (topics s) (service @ q)")
    case (Some r)
    then show ?thesis unfolding unf by simp
  next
    case None
    then show ?thesis
      unfolding unf by (simp add: update_absent [OF None] split: sum.splits)
  qed
qed

lemma scan_only_grows:
  "service_ids (snd (scan_dbus_service env service pub s)) = service_ids s
   \<and> (\<exists>ext. topics (snd (scan_dbus_service env service pub s)) = topics s @ ext)
   \<and> (\<forall>t. (t, None) \<in> set (queue (snd (scan_dbus_service env service pub s)))
          \<longrightarrow> (t, None) \<in> set (queue s))"
proof -
  define P where "P = (\<lambda>s' :: state. service_ids s' = service_ids s \<and> (\<exists>ext. topics s' = topics s @ ext) \<and>
      (\<forall>t. (t, None) \<in> set (queue s') \<longrightarrow> (t, None) \<in> set (queue s)))"
  have "P (snd (scan_dbus_service env service pub s))"
  proof (rule scan_dbus_service_preserves [of P])
    show "P (publish env t v s')" if "P s'" for t v s'
      using that set_update_subset [of t "Some (json_dumps env v)" "queue s'"]
      by (auto simp: P_def publish_def)
    show "P (snd (add_item service (InstInt di) path v s'))" if "P s'" for di path v s'
      using that add_item_appends [of service "InstInt di" path v s']
      by (auto simp: P_def)
    show "P (s'\<lparr>services := AList.update k service (services s')\<rparr>)" if "P s'" for k s'
      using that by (simp add: P_def)
    show "P s"
      by (simp add: P_def)
  qed
  then show ?thesis
    by (simp add: P_def)
qed

text \<open>
  C2. A \<^verbatim>\<open>NameOwnerChanged\<close> event for a vendor-prefixed name with a non-empty new owner is
  handled as an appearance, whether or not the old owner is empty: the service is scanned
  again with publishing on and, when the scan returns, the new owner's handle is
  registered. Nothing of a disappearance happens on an owner swap: the mirror table is only
  extended, no tombstone is added to the queue, and the old owner's handle stays as it was.
\<close>

theorem owner_swap_is_an_appearance:
  assumes pre: "startswith name ''com.victronenergy.''" and new: "newowner \<noteq> []"
  shows "dbus_name_owner_changed env name oldowner newowner s
           = dbus_name_owner_changed env name [] newowner s
       \<and> (\<exists>ext. topics (snd (dbus_name_owner_changed env name oldowner newowner s))
                  = topics s @ ext)
       \<and> (\<forall>t. (t, None) \<in> set (queue (snd (dbus_name_owner_changed env name oldowner newowner s)))
              \<longrightarrow> (t, None) \<in> set (queue s))
       \<and> (oldowner \<noteq> newowner \<longrightarrow>
            map_of (service_ids (snd (dbus_name_owner_changed env name oldowner newowner s)))
              oldowner = map_of (service_ids s) oldowner)
       \<and> (fst (dbus_name_owner_changed env name oldowner newowner s) = Inr () \<longrightarrow>
            snd (dbus_name_owner_changed env name oldowner newowner s)
              = (snd (scan_dbus_service env name True s))
                  \<lparr>service_ids := AList.update newowner name
                     (service_ids (snd (scan_dbus_service env name True s)))\<rparr>)"
proof -
  obtain r s1 where r: "scan_dbus_service env name True s = (r, s1)"
    by (cases "scan_dbus_service env name True s")
  have g: "service_ids s1 = service_ids s" "\<exists>ext. topics s1 = topics s @ ext"
    "\<forall>t. (t, None) \<in> set (queue s1) \<longrightarrow> (t, None) \<in> set (queue s)"
    using scan_only_grows [of env name True s] r by simp_all
  show ?thesis
  proof (cases r)
    case (Inl e)
    with pre new r g show ?thesis
      by (simp add: dbus_name_owner_changed_def)
  next
    case (Inr u)
    with pre new r g show ?thesis
      by (simp add: dbus_name_owner_changed_def AList.update_conv')
  qed
qed

theorem owner_swap_is_an_appearance_witness:
  "startswith ''com.victronenergy.vebus'' ''com.victronenergy.''
   \<and> '':1.9'' \<noteq> []
   \<and> dbus_name_owner_changed moved_env ''com.victronenergy.vebus'' '':1.5'' '':1.9'' live_state
       = dbus_name_owner_changed moved_env ''com.victronenergy.vebus'' [] '':1.9'' live_state
   \<and> (\<exists>ext. topics (snd (dbus_name_owner_changed moved_env ''com.victronenergy.vebus''
                            '':1.5'' '':1.9'' live_state))
               = topics live_state @ ext)
   \<and> (''N/abc/system/0/Ac/Power'', None)
        \<in> set (queue (snd (dbus_name_owner_changed demo_env ''com.victronenergy.vebus''
                             '':1.3'' '':1.9'' cleared_state)))
   \<and> (''N/abc/system/0/Ac/Power'', None) \<in> set (queue cleared_state)
   \<and> '':1.5'' \<noteq> '':1.9''
   \<and> map_of (service_ids (snd (dbus_name_owner_changed moved_env ''com.victronenergy.vebus''
                                 '':1.5'' '':1.9'' live_state))) '':1.5''
       = map_of (service_ids live_state) '':1.5''
   \<and> map_of (service_ids live_state) '':1.5'' = Some ''com.victronenergy.vebus''
   \<and> fst (dbus_name_owner_changed moved_env ''com.victronenergy.vebus'' '':1.5'' '':1.9''
            live_state) = Inr ()
   \<and> snd (dbus_name_owner_changed moved_env ''com.victronenergy.vebus'' '':1.5'' '':1.9''
            live_state)
       = (snd (scan_dbus_service moved_env ''com.victronenergy.vebus'' True live_state))
           \<lparr>service_ids := AList.update '':1.9'' ''com.victronenergy.vebus''
              (service_ids (snd (scan_dbus_service moved_env ''com.victronenergy.vebus'' True
                                   live_state)))\<rparr>"
proof -
  have pre: "startswith ''com.victronenergy.vebus'' ''com.victronenergy.''"
    by code_simp
  have new: "'':1.9'' \<noteq> []"
    by simp
  have tomb: "(''N/abc/system/0/Ac/Power'', None)
        \<in> set (queue (snd (dbus_name_owner_changed demo_env ''com.victronenergy.vebus''
                             '':1.3'' '':1.9'' cleared_state)))"
    by code_simp
  have ne: "'':1.5'' \<noteq> '':1.9''"
    by simp
  have handle: "map_of (service_ids live_state) '':1.5'' = Some ''com.victronenergy.vebus''"
    by code_simp
  have ok: "fst (dbus_name_owner_changed moved_env ''com.victronenergy.vebus'' '':1.5'' '':1.9''
            live_state) = Inr ()"
    by code_simp
  note T = owner_swap_is_an_appearance [OF pre new, of moved_env "'':1.5''" live_state]
  note U = owner_swap_is_an_appearance [OF pre new, of demo_env "'':1.3''" cleared_state]
  note c1 = conjunct1 [OF T]
  note c2 = conjunct1 [OF conjunct2 [OF T]]
  note c3 = conjunct1 [OF conjunct2 [OF conjunct2 [OF U]], rule_format, OF tomb]
  note c4 = conjunct1 [OF conjunct2 [OF conjunct2 [OF conjunct2 [OF T]]], rule_format, OF ne]
  note c5 = conjunct2 [OF conjunct2 [OF conjunct2 [OF conjunct2 [OF T]]], rule_format, OF ok]
  show ?thesis
    by (intro conjI pre new c1 c2 tomb c3 ne c4 handle ok c5)
qed

theorem owner_swap_tears_nothing_down_counterexample:
  "startswith ''com.victronenergy.vebus'' ''com.victronenergy.''
   \<and> reachable live_state
   \<and> map_of (service_ids live_state) '':1.5'' = Some ''com.victronenergy.vebus''
   \<and> (''com.victronenergy.vebus/Ac/Power'', ''N/abc/vebus/0/Ac/Power'') \<in> set (topics live_state)
   \<and> fst (dbus_name_owner_changed moved_env ''com.victronenergy.vebus'' '':1.5'' '':1.9''
            live_state) = Inr ()
   \<and> (''com.victronenergy.vebus/Ac/Power'', ''N/abc/vebus/0/Ac/Power'')
        \<in> set (topics (snd (dbus_name_owner_changed moved_env ''com.victronenergy.vebus''
                              '':1.5'' '':1.9'' live_state)))
   \<and> map_of (queue (snd (dbus_name_owner_changed moved_env ''com.victronenergy.vebus''
                           '':1.5'' '':1.9'' live_state))) ''N/abc/vebus/0/Ac/Power'' = None
   \<and> map_of (service_ids (snd (dbus_name_owner_changed moved_env ''com.victronenergy.vebus''
                                 '':1.5'' '':1.9'' live_state))) '':1.5''
       = Some ''com.victronenergy.vebus''
   \<and> map_of (queue (snd (dbus_name_owner_changed moved_env ''com.victronenergy.vebus''
                           '':1.5'' [] live_state))) ''N/abc/vebus/0/Ac/Power'' = Some None
   \<and> map_of (topics (snd (dbus_name_owner_changed moved_env ''com.victronenergy.vebus''
                            '':1.5'' [] live_state))) ''com.victronenergy.vebus/Ac/Power'' = None
   \<and> map_of (service_ids (snd (dbus_name_owner_changed moved_env ''com.victronenergy.vebus''
                                 '':1.5'' [] live_state))) '':1.5'' = None
   \<and> snd (dbus_name_owner_changed moved_env ''com.victronenergy.vebus'' '':1.5'' '':1.9''
            live_state)
       \<noteq> snd (dbus_name_owner_changed moved_env ''com.victronenergy.vebus'' [] '':1.9''
                (snd (dbus_name_owner_changed moved_env ''com.victronenergy.vebus'' '':1.5'' []
                        live_state)))"
proof -
  have a: "startswith ''com.victronenergy.vebus'' ''com.victronenergy.''"
    by code_simp
  have b: "map_of (service_ids live_state) '':1.5'' = Some ''com.victronenergy.vebus''"
    by code_simp
  have c: "(''com.victronenergy.vebus/Ac/Power'', ''N/abc/vebus/0/Ac/Power'')
      \<in> set (topics live_state)"
    by code_simp
  have d: "fst (dbus_name_owner_changed moved_env ''com.victronenergy.vebus'' '':1.5'' '':1.9''
            live_state) = Inr ()"
    by code_simp
  have e: "(''com.victronenergy.vebus/Ac/Power'', ''N/abc/vebus/0/Ac/Power'')
        \<in> set (topics (snd (dbus_name_owner_changed moved_env ''com.victronenergy.vebus''
                              '':1.5'' '':1.9'' live_state)))"
    by code_simp
  have f: "map_of (queue (snd (dbus_name_owner_changed moved_env ''com.victronenergy.vebus''
                           '':1.5'' '':1.9'' live_state))) ''N/abc/vebus/0/Ac/Power'' = None"
    by code_simp
  have g: "map_of (service_ids (snd (dbus_name_owner_changed moved_env ''com.victronenergy.vebus''
                                 '':1.5'' '':1.9'' live_state))) '':1.5''
       = Some ''com.victronenergy.vebus''"
    by code_simp
  have h: "map_of (queue (snd (dbus_name_owner_changed moved_env ''com.victronenergy.vebus''
                           '':1.5'' [] live_state))) ''N/abc/vebus/0/Ac/Power'' = Some None"
    by code_simp
  have i: "map_of (topics (snd (dbus_name_owner_changed moved_env ''com.victronenergy.vebus''
                            '':1.5'' [] live_state))) ''com.victronenergy.vebus/Ac/Power'' = None"
    by code_simp
  have j: "map_of (service_ids (snd (dbus_name_owner_changed moved_env ''com.victronenergy.vebus''
                                 '':1.5'' [] live_state))) '':1.5'' = None"
    by code_simp
  have k: "snd (dbus_name_owner_changed moved_env ''com.victronenergy.vebus'' '':1.5'' '':1.9''
            live_state)
       \<noteq> snd (dbus_name_owner_changed moved_env ''com.victronenergy.vebus'' [] '':1.9''
                (snd (dbus_name_owner_changed moved_env ''com.victronenergy.vebus'' '':1.5'' []
                        live_state)))"
  proof
    assume "snd (dbus_name_owner_changed moved_env ''com.victronenergy.vebus'' '':1.5'' '':1.9''
            live_state)
       = snd (dbus_name_owner_changed moved_env ''com.victronenergy.vebus'' [] '':1.9''
                (snd (dbus_name_owner_changed moved_env ''com.victronenergy.vebus'' '':1.5'' []
                        live_state)))"
    then have "map_of (service_ids (snd (dbus_name_owner_changed moved_env
                 ''com.victronenergy.vebus'' '':1.5'' '':1.9'' live_state))) '':1.5''
       = map_of (service_ids (snd (dbus_name_owner_changed moved_env ''com.victronenergy.vebus''
                [] '':1.9'' (snd (dbus_name_owner_changed moved_env ''com.victronenergy.vebus''
                   '':1.5'' [] live_state))))) '':1.5''"
      by (rule arg_cong)
    moreover have "map_of (service_ids (snd (dbus_name_owner_changed moved_env
                ''com.victronenergy.vebus''
                [] '':1.9'' (snd (dbus_name_owner_changed moved_env ''com.victronenergy.vebus''
                   '':1.5'' [] live_state))))) '':1.5'' = None"
      by code_simp
    ultimately show False
      unfolding g by simp
  qed
  show ?thesis
    by (intro conjI a reachable_live_state b c d e f g h i j k)
qed

subsection \<open>A scan that fails with a transient bus error\<close>

lemma catch_transient_fst:
  "fst (catch_transient r) = Inl (DBusException n) \<Longrightarrow> \<not> transient n"
  by (cases r rule: catch_transient.cases) (auto simp: transient_def split: if_splits)

lemma transient_not_absent:
  "transient n \<Longrightarrow> n \<noteq> UnknownObject \<and> n \<noteq> UnknownMethod"
  by (auto simp: transient_def ServiceUnknown_def Disconnected_def NoReply_def
      UnknownObject_def UnknownMethod_def)

lemma catch_transient_swallows:
  "transient n \<Longrightarrow> catch_transient (Inl (DBusException n), s) = (Inr (), s)"
  by (auto simp: transient_def)

lemma add_item_services [simp]: "services (snd (add_item service di path v s)) = services s"
  by (simp add: add_item_def Let_def split: option.splits sum.splits)

text \<open>
  C3. A scan never ends in one of the three transient bus errors (service unknown,
  disconnected, no reply): the error is swallowed and the scan is abandoned where it
  failed. When the failing read is the one of \<^verbatim>\<open>/DeviceInstance\<close>, nothing has been written
  and the state, the registry included, is as before the scan. Once the instance has been
  read, the service's record is written to the registry before anything else is read, and
  it stays whatever fails later; when the failing read is the listing of \<^verbatim>\<open>/\<close>, that record
  is the only change.
\<close>

theorem transient_scan_failure_is_swallowed:
  "(\<forall>n. fst (scan_dbus_service env service pub s) = Inl (DBusException n) \<longrightarrow> \<not> transient n)
   \<and> (\<forall>n. transient n \<and> get_dbus_value env service ''/DeviceInstance'' = Inl (DBusException n)
          \<longrightarrow> scan_dbus_service env service pub s = (Inr (), s))
   \<and> (\<forall>n device_instance short_service_name.
          transient n
          \<and> read_device_instance (get_dbus_value env service ''/DeviceInstance'')
              = Inr device_instance
          \<and> get_short_service_name service device_instance = Inr short_service_name
          \<and> get_dbus_value env service ''/'' = Inl (DBusException n)
          \<longrightarrow> scan_dbus_service env service pub s
                = (Inr (), s\<lparr>services :=
                     AList.update short_service_name service (services s)\<rparr>))
   \<and> (\<forall>device_instance short_service_name.
          read_device_instance (get_dbus_value env service ''/DeviceInstance'')
              = Inr device_instance
          \<and> get_short_service_name service device_instance = Inr short_service_name
          \<longrightarrow> services (snd (scan_dbus_service env service pub s))
                = AList.update short_service_name service (services s))"
proof (intro conjI allI impI)
  fix n
  assume "fst (scan_dbus_service env service pub s) = Inl (DBusException n)"
  then show "\<not> transient n"
    unfolding scan_dbus_service_def by (rule catch_transient_fst)
next
  fix n
  assume a: "transient n \<and> get_dbus_value env service ''/DeviceInstance'' = Inl (DBusException n)"
  then have "scan_body env service pub s = (Inl (DBusException n), s)"
    using transient_not_absent [of n] by (simp add: scan_body_def)
  with a show "scan_dbus_service env service pub s = (Inr (), s)"
    by (auto simp: scan_dbus_service_def transient_def)
next
  fix n device_instance short_service_name
  assume a: "transient n
          \<and> read_device_instance (get_dbus_value env service ''/DeviceInstance'')
              = Inr device_instance
          \<and> get_short_service_name service device_instance = Inr short_service_name
          \<and> get_dbus_value env service ''/'' = Inl (DBusException n)"
  then have "scan_body env service pub s
      = (Inl (DBusException n), s\<lparr>services :=
                     AList.update short_service_name service (services s)\<rparr>)"
    using transient_not_absent [of n] by (simp add: scan_body_def)
  with a show "scan_dbus_service env service pub s
                = (Inr (), s\<lparr>services :=
                     AList.update short_service_name service (services s)\<rparr>)"
    by (auto simp: scan_dbus_service_def transient_def)
next
  fix device_instance short_service_name
  assume a: "read_device_instance (get_dbus_value env service ''/DeviceInstance'')
              = Inr device_instance
          \<and> get_short_service_name service device_instance = Inr short_service_name"
  let ?reg = "AList.update short_service_name service (services s)"
  have "services (snd (scan_listing env service device_instance pub
                         (get_dbus_value env service ''/'') (s\<lparr>services := ?reg\<rparr>))) = ?reg"
    by (rule scan_listing_preserves [of "\<lambda>s'. services s' = ?reg"])
       (simp_all add: publish_def add_item_services)
  with a show "services (snd (scan_dbus_service env service pub s)) = ?reg"
    by (simp add: scan_dbus_service_def scan_body_def)
qed

theorem transient_scan_failure_is_swallowed_witness:
  "fst (scan_dbus_service denied_env ''com.victronenergy.system'' True idle_state)
       = Inl (DBusException ''org.freedesktop.DBus.Error.AccessDenied'')
   \<and> \<not> transient ''org.freedesktop.DBus.Error.AccessDenied''
   \<and> transient ServiceUnknown
   \<and> get_dbus_value gone_env ''com.victronenergy.system'' ''/DeviceInstance''
       = Inl (DBusException ServiceUnknown)
   \<and> scan_dbus_service gone_env ''com.victronenergy.system'' True idle_state
       = (Inr (), idle_state)
   \<and> transient NoReply
   \<and> read_device_instance (get_dbus_value noreply_env ''com.victronenergy.system'' ''/DeviceInstance'')
       = Inr 0
   \<and> get_short_service_name ''com.victronenergy.system'' 0 = Inr ''system/0''
   \<and> get_dbus_value noreply_env ''com.victronenergy.system'' ''/'' = Inl (DBusException NoReply)
   \<and> scan_dbus_service noreply_env ''com.victronenergy.system'' True idle_state
       = (Inr (), idle_state\<lparr>services :=
            AList.update ''system/0'' ''com.victronenergy.system'' (services idle_state)\<rparr>)
   \<and> read_device_instance (get_dbus_value demo_env ''com.victronenergy.system'' ''/DeviceInstance'')
       = Inr 0
   \<and> services (snd (scan_dbus_service demo_env ''com.victronenergy.system'' True idle_state))
       = AList.update ''system/0'' ''com.victronenergy.system'' (services idle_state)"
proof -
  have a1: "fst (scan_dbus_service denied_env ''com.victronenergy.system'' True idle_state)
       = Inl (DBusException ''org.freedesktop.DBus.Error.AccessDenied'')"
    by code_simp
  have b1: "transient ServiceUnknown"
    by code_simp
  have b2: "get_dbus_value gone_env ''com.victronenergy.system'' ''/DeviceInstance''
       = Inl (DBusException ServiceUnknown)"
    by code_simp
  have c1: "transient NoReply"
    by code_simp
  have c2: "read_device_instance
      (get_dbus_value noreply_env ''com.victronenergy.system'' ''/DeviceInstance'') = Inr 0"
    by code_simp
  have c3: "get_short_service_name ''com.victronenergy.system'' 0 = Inr ''system/0''"
    by code_simp
  have c4: "get_dbus_value noreply_env ''com.victronenergy.system'' ''/''
      = Inl (DBusException NoReply)"
    by code_simp
  note A = transient_scan_failure_is_swallowed
    [of denied_env "''com.victronenergy.system''" True idle_state,
      THEN conjunct1, rule_format, OF a1]
  note B = transient_scan_failure_is_swallowed
    [of gone_env "''com.victronenergy.system''" True idle_state,
      THEN conjunct2, THEN conjunct1, rule_format, OF conjI [OF b1 b2]]
  have d1: "read_device_instance
      (get_dbus_value demo_env ''com.victronenergy.system'' ''/DeviceInstance'') = Inr 0"
    by code_simp
  note C = transient_scan_failure_is_swallowed
    [of noreply_env "''com.victronenergy.system''" True idle_state,
      THEN conjunct2, THEN conjunct2, THEN conjunct1, rule_format,
      OF conjI [OF c1 conjI [OF c2 conjI [OF c3 c4]]]]
  note D = transient_scan_failure_is_swallowed
    [of demo_env "''com.victronenergy.system''" True idle_state,
      THEN conjunct2, THEN conjunct2, THEN conjunct2, rule_format, OF conjI [OF d1 c3]]
  show ?thesis
    by (intro conjI a1 A b1 b2 B c1 c2 c3 c4 C d1 D)
qed

theorem transient_scan_failure_keeps_registry_counterexample:
  "transient NoReply
   \<and> get_dbus_value noreply_env ''com.victronenergy.system'' ''/'' = Inl (DBusException NoReply)
   \<and> fst (scan_dbus_service noreply_env ''com.victronenergy.system'' False idle_state) = Inr ()
   \<and> services idle_state = []
   \<and> services (snd (scan_dbus_service noreply_env ''com.victronenergy.system'' False idle_state))
       = [(''system/0'', ''com.victronenergy.system'')]"
  by code_simp

subsection \<open>The shape of a mirror entry\<close>

text \<open>
  C6. In every reachable state, every mirror entry maps a uid \<open>service @ path\<close>, where the
  service is a bus name and the path starts with a slash, to the topic
  \<^verbatim>\<open>N/{portal_id}/{service_type}/{i}{path}\<close>, where \<open>i\<close> is an integer as \<^verbatim>\<open>format\<close> prints it,
  whichever way the entry was created (scan, introspection, change signal or read request).
  The integer is the device instance that was handed to \<^verbatim>\<open>_add_item\<close> when the entry was
  made: for a uid that has no entry yet and whose pair is not blocked, \<^verbatim>\<open>_add_item\<close>
  appends exactly the entry with the printed instance of that call, and stores the value
  under the topic. Nothing ties the integer to the instance the service reports now.
\<close>

theorem mirror_entries_have_topic_shape:
  assumes "reachable s"
  shows "(\<forall>(uid, topic) \<in> set (topics s).
            \<exists>service service_type i path.
              bus_name_ok service \<and> uid = service @ path \<and> startswith path ''/'' \<and>
              get_service_type service = Inr service_type \<and>
              topic = ''N/'' @ system_id s @ ''/'' @ service_type @ ''/''
                        @ format_instance (InstInt i) @ path)
       \<and> (\<forall>service service_type device_instance path p v.
            p = (if \<not> startswith path ''/'' then ''/'' @ path else path) \<and>
            get_service_type service = Inr service_type \<and>
            map_of (topics s) (service @ p) = None \<and>
            (service_type, p) \<notin> blocked_items
            \<longrightarrow> add_item service device_instance path v s
                  = (Inr (Some (''N/'' @ system_id s @ ''/'' @ service_type @ ''/''
                                  @ format_instance device_instance @ p)),
                     s\<lparr>topics := topics s
                          @ [(service @ p,
                              ''N/'' @ system_id s @ ''/'' @ service_type @ ''/''
                                @ format_instance device_instance @ p)],
                       values' := AList.update
                          (''N/'' @ system_id s @ ''/'' @ service_type @ ''/''
                             @ format_instance device_instance @ p) v (values' s)\<rparr>))"
proof -
  have "\<forall>e \<in> set (topics s). entry_ok (system_id s) e"
    using reachable_inv [OF assms] by (simp add: mirror_inv_def)
  then have first: "\<forall>(uid, topic) \<in> set (topics s).
            \<exists>service service_type i path.
              bus_name_ok service \<and> uid = service @ path \<and> startswith path ''/'' \<and>
              get_service_type service = Inr service_type \<and>
              topic = ''N/'' @ system_id s @ ''/'' @ service_type @ ''/''
                        @ format_instance (InstInt i) @ path"
    unfolding entry_ok_def by fastforce
  have second: "add_item service di path v s
                  = (Inr (Some (''N/'' @ system_id s @ ''/'' @ ty @ ''/'' @ format_instance di @ p)),
                     s\<lparr>topics := topics s
                          @ [(service @ p,
                              ''N/'' @ system_id s @ ''/'' @ ty @ ''/'' @ format_instance di @ p)],
                       values' := AList.update
                          (''N/'' @ system_id s @ ''/'' @ ty @ ''/'' @ format_instance di @ p)
                          v (values' s)\<rparr>)"
    if p: "p = (if \<not> startswith path ''/'' then ''/'' @ path else path)"
      and ty: "get_service_type service = Inr ty"
      and none: "map_of (topics s) (service @ p) = None"
      and nb: "(ty, p) \<notin> blocked_items"
    for service ty di path p v
  proof -
    have "add_item service di path v s
        = (Inr (Some (''N/'' @ system_id s @ ''/'' @ ty @ ''/'' @ format_instance di @ p)),
           s\<lparr>topics := AList.update (service @ p)
                  (''N/'' @ system_id s @ ''/'' @ ty @ ''/'' @ format_instance di @ p) (topics s),
             values' := AList.update
                  (''N/'' @ system_id s @ ''/'' @ ty @ ''/'' @ format_instance di @ p)
                  v (values' s)\<rparr>)"
      using ty none nb unfolding add_item_def Let_def p [symmetric] by simp
    then show ?thesis
      unfolding update_absent [OF none] .
  qed
  from first second show ?thesis by blast
qed

theorem mirror_entries_have_topic_shape_witness:
  "reachable moved_state
   \<and> (''com.victronenergy.vebus/Foo'', ''N/abc/vebus/1/Foo'') \<in> set (topics moved_state)
   \<and> (\<exists>service service_type i path.
         bus_name_ok service \<and> ''com.victronenergy.vebus/Foo'' = service @ path \<and>
         startswith path ''/'' \<and> get_service_type service = Inr service_type \<and>
         ''N/abc/vebus/1/Foo''
           = ''N/'' @ system_id moved_state @ ''/'' @ service_type @ ''/''
               @ format_instance (InstInt i) @ path)
   \<and> ''/Baz'' = (if \<not> startswith ''Baz'' ''/'' then ''/'' @ ''Baz'' else ''Baz'')
   \<and> get_service_type ''com.victronenergy.vebus'' = Inr ''vebus''
   \<and> map_of (topics moved_state) (''com.victronenergy.vebus'' @ ''/Baz'') = None
   \<and> (''vebus'', ''/Baz'') \<notin> blocked_items
   \<and> add_item ''com.victronenergy.vebus'' (InstInt 2) ''Baz'' (PyInt 3) moved_state
       = (Inr (Some ''N/abc/vebus/2/Baz''),
          moved_state\<lparr>topics := topics moved_state
                         @ [(''com.victronenergy.vebus'' @ ''/Baz'', ''N/abc/vebus/2/Baz'')],
                       values' := AList.update ''N/abc/vebus/2/Baz'' (PyInt 3)
                         (values' moved_state)\<rparr>)"
proof -
  have mem: "(''com.victronenergy.vebus/Foo'', ''N/abc/vebus/1/Foo'') \<in> set (topics moved_state)"
    by code_simp
  have p: "''/Baz'' = (if \<not> startswith ''Baz'' ''/'' then ''/'' @ ''Baz'' else ''Baz'')"
    by code_simp
  have ty: "get_service_type ''com.victronenergy.vebus'' = Inr ''vebus''"
    by code_simp
  have none: "map_of (topics moved_state) (''com.victronenergy.vebus'' @ ''/Baz'') = None"
    by code_simp
  have nb: "(''vebus'', ''/Baz'') \<notin> blocked_items"
    by (simp add: blocked_items_def)
  have lit: "''N/'' @ system_id moved_state @ ''/'' @ ''vebus'' @ ''/''
               @ format_instance (InstInt 2) @ ''/Baz'' = ''N/abc/vebus/2/Baz''"
    by code_simp
  note T = mirror_entries_have_topic_shape [OF reachable_moved_state]
  note c1 = conjunct1 [OF T, THEN bspec, OF mem, unfolded prod.case]
  note c2 = conjunct2 [OF T, rule_format, OF conjI [OF p conjI [OF ty conjI [OF none nb]]],
      of "InstInt 2" "PyInt 3", unfolded lit]
  show ?thesis
    by (intro conjI reachable_moved_state mem c1 p ty none nb c2)
qed

theorem mirror_topic_carries_current_instance_counterexample:
  "reachable drifted_state
   \<and> read_device_instance (get_dbus_value moved_env ''com.victronenergy.vebus'' ''/DeviceInstance'')
       = Inr 1
   \<and> map_of (services drifted_state) ''vebus/1'' = Some ''com.victronenergy.vebus''
   \<and> (''com.victronenergy.vebus/Serial'', ''N/abc/vebus/0/Serial'') \<in> set (topics drifted_state)
   \<and> (''com.victronenergy.vebus/Foo'', ''N/abc/vebus/1/Foo'') \<in> set (topics drifted_state)
   \<and> (''com.victronenergy.vebus/Bar'', ''N/abc/vebus/0/Bar'') \<in> set (topics drifted_state)
   \<and> topics drifted_state = topics moved_state
        @ [(''com.victronenergy.vebus/Bar'', ''N/abc/vebus/0/Bar'')]
   \<and> \<not> (\<exists>device_instance. \<forall>(uid, topic) \<in> set (topics drifted_state). \<forall>path.
            uid = ''com.victronenergy.vebus'' @ path
            \<longrightarrow> topic = ''N/abc/vebus/'' @ device_instance @ path)"
proof -
  have a: "read_device_instance
      (get_dbus_value moved_env ''com.victronenergy.vebus'' ''/DeviceInstance'') = Inr 1"
    by code_simp
  have b: "map_of (services drifted_state) ''vebus/1'' = Some ''com.victronenergy.vebus''"
    by code_simp
  have c: "(''com.victronenergy.vebus/Serial'', ''N/abc/vebus/0/Serial'')
      \<in> set (topics drifted_state)"
    by code_simp
  have d: "(''com.victronenergy.vebus/Foo'', ''N/abc/vebus/1/Foo'') \<in> set (topics drifted_state)"
    by code_simp
  have e: "(''com.victronenergy.vebus/Bar'', ''N/abc/vebus/0/Bar'') \<in> set (topics drifted_state)"
    by code_simp
  have f: "topics drifted_state = topics moved_state
        @ [(''com.victronenergy.vebus/Bar'', ''N/abc/vebus/0/Bar'')]"
    by code_simp
  have g: "\<not> (\<exists>device_instance. \<forall>(uid, topic) \<in> set (topics drifted_state). \<forall>path.
            uid = ''com.victronenergy.vebus'' @ path
            \<longrightarrow> topic = ''N/abc/vebus/'' @ device_instance @ path)"
  proof
    assume "\<exists>device_instance. \<forall>(uid, topic) \<in> set (topics drifted_state). \<forall>path.
            uid = ''com.victronenergy.vebus'' @ path
            \<longrightarrow> topic = ''N/abc/vebus/'' @ device_instance @ path"
    then obtain di where all: "\<forall>(uid, topic) \<in> set (topics drifted_state). \<forall>path.
            uid = ''com.victronenergy.vebus'' @ path
            \<longrightarrow> topic = ''N/abc/vebus/'' @ di @ path"
      by (rule exE)
    have u1: "''com.victronenergy.vebus/Serial'' = ''com.victronenergy.vebus'' @ ''/Serial''"
      by simp
    have u2: "''com.victronenergy.vebus/Foo'' = ''com.victronenergy.vebus'' @ ''/Foo''"
      by simp
    note e1 = all [THEN bspec, OF c, unfolded prod.case, rule_format, OF u1]
    note e2 = all [THEN bspec, OF d, unfolded prod.case, rule_format, OF u2]
    have "''N/abc/vebus/'' @ ''0'' @ ''/Serial'' = ''N/abc/vebus/'' @ di @ ''/Serial''"
      using e1 by simp
    then have d0: "di = ''0''"
      by (simp only: same_append_eq append_same_eq)
    have "''N/abc/vebus/'' @ ''1'' @ ''/Foo'' = ''N/abc/vebus/'' @ di @ ''/Foo''"
      using e2 by simp
    then have d1: "di = ''1''"
      by (simp only: same_append_eq append_same_eq)
    from d0 d1 show False by simp
  qed
  show ?thesis
    by (intro conjI reachable_drifted_state a b c d e f g)
qed

subsection \<open>Blocked items\<close>

text \<open>
  C7. In every reachable state no mirror entry belongs to a blocked pair: however a uid in
  the table is read as a bus name followed by a path, the pair of the name's service type
  and the path is not blocked; and \<^verbatim>\<open>_add_item\<close> called for a blocked pair returns no topic
  and leaves the state, so both tables, as it is.
\<close>

theorem no_mirror_entry_for_blocked_pair:
  assumes r: "reachable s"
  shows "(\<forall>(uid, topic) \<in> set (topics s). \<forall>service path service_type.
            bus_name_ok service \<and> startswith path ''/'' \<and> uid = service @ path \<and>
            get_service_type service = Inr service_type
            \<longrightarrow> (service_type, path) \<notin> blocked_items)
       \<and> (\<forall>service service_type device_instance path v.
            bus_name_ok service \<and> get_service_type service = Inr service_type \<and>
            (service_type, if \<not> startswith path ''/'' then ''/'' @ path else path) \<in> blocked_items
            \<longrightarrow> add_item service device_instance path v s = (Inr None, s))"
proof -
  have ok: "\<forall>e \<in> set (topics s). entry_ok (system_id s) e"
    using reachable_inv [OF r] by (simp add: mirror_inv_def)
  have unblocked: "(ty, path) \<notin> blocked_items"
    if e: "(uid, topic) \<in> set (topics s)" and sv: "bus_name_ok service"
      and sw: "startswith path ''/''" and uid: "uid = service @ path"
      and ty: "get_service_type service = Inr ty"
    for uid topic service path ty
  proof -
    from ok e have "entry_ok (system_id s) (uid, topic)" by blast
    then obtain service' path' ty' where
      e': "bus_name_ok service'" "startswith path' ''/''" "uid = service' @ path'"
          "get_service_type service' = Inr ty'" "(ty', path') \<notin> blocked_items"
      unfolding entry_ok_def by auto
    from split_uid_unique [OF sv e'(1) sw e'(2)] uid e'(3)
    have "service = service'" "path = path'" by simp_all
    with e' ty show ?thesis by simp
  qed
  have first: "\<forall>(uid, topic) \<in> set (topics s). \<forall>service path service_type.
            bus_name_ok service \<and> startswith path ''/'' \<and> uid = service @ path \<and>
            get_service_type service = Inr service_type
            \<longrightarrow> (service_type, path) \<notin> blocked_items"
    using unblocked by blast
  have second: "add_item service di path v s = (Inr None, s)"
    if sv: "bus_name_ok service" and ty: "get_service_type service = Inr ty"
      and bl: "(ty, if \<not> startswith path ''/'' then ''/'' @ path else path) \<in> blocked_items"
    for service ty di path v
  proof -
    define p where "p = (if \<not> startswith path ''/'' then ''/'' @ path else path)"
    have sw: "startswith p ''/''"
      by (simp add: p_def startswith_def)
    have none: "map_of (topics s) (service @ p) = None"
    proof (rule ccontr)
      assume "map_of (topics s) (service @ p) \<noteq> None"
      then obtain topic where "(service @ p, topic) \<in> set (topics s)"
        by (auto dest: map_of_SomeD)
      from unblocked [OF this sv sw refl ty] bl show False
        by (simp add: p_def)
    qed
    show ?thesis
      using none ty bl unfolding add_item_def Let_def p_def by simp
  qed
  from first second show ?thesis by blast
qed

theorem no_mirror_entry_for_blocked_pair_witness:
  "reachable vebus_state
   \<and> (''com.victronenergy.vebus/Serial'', ''N/abc/vebus/0/Serial'') \<in> set (topics vebus_state)
   \<and> bus_name_ok ''com.victronenergy.vebus''
   \<and> startswith ''/Serial'' ''/''
   \<and> ''com.victronenergy.vebus/Serial'' = ''com.victronenergy.vebus'' @ ''/Serial''
   \<and> get_service_type ''com.victronenergy.vebus'' = Inr ''vebus''
   \<and> (''vebus'', ''/Serial'') \<notin> blocked_items
   \<and> (''vebus'', if \<not> startswith ''Interfaces/Mk2/Tunnel'' ''/''
                 then ''/'' @ ''Interfaces/Mk2/Tunnel'' else ''Interfaces/Mk2/Tunnel'')
        \<in> blocked_items
   \<and> add_item ''com.victronenergy.vebus'' (InstInt 0) ''Interfaces/Mk2/Tunnel'' (PyInt 1) vebus_state
        = (Inr None, vebus_state)"
proof -
  have mem: "(''com.victronenergy.vebus/Serial'', ''N/abc/vebus/0/Serial'') \<in> set (topics vebus_state)"
    by code_simp
  have ok: "bus_name_ok ''com.victronenergy.vebus''"
    by code_simp
  have sw: "startswith ''/Serial'' ''/''"
    by code_simp
  have uid: "''com.victronenergy.vebus/Serial'' = ''com.victronenergy.vebus'' @ ''/Serial''"
    by simp
  have ty: "get_service_type ''com.victronenergy.vebus'' = Inr ''vebus''"
    by code_simp
  have bl: "(''vebus'', if \<not> startswith ''Interfaces/Mk2/Tunnel'' ''/''
                 then ''/'' @ ''Interfaces/Mk2/Tunnel'' else ''Interfaces/Mk2/Tunnel'')
        \<in> blocked_items"
    by (simp add: blocked_items_def startswith_def)
  note T = no_mirror_entry_for_blocked_pair [OF reachable_vebus_state]
  note c1 = conjunct1 [OF T, THEN bspec, OF mem, unfolded prod.case, rule_format,
      OF conjI [OF ok conjI [OF sw conjI [OF uid ty]]]]
  note c2 = conjunct2 [OF T, rule_format, OF conjI [OF ok conjI [OF ty bl]],
      of "InstInt 0" "PyInt 1"]
  show ?thesis
    by (intro conjI reachable_vebus_state mem ok sw uid ty bl c1 c2)
qed

subsection \<open>The serial number is never cleared\<close>

text \<open>
  C8. In every reachable state neither the queue nor the list of publishes already made
  holds a tombstone for a topic ending in \<^verbatim>\<open>/system/0/Serial\<close>. The reachable states
  include those after a service's teardown and after either form of unpublish-all.
\<close>

theorem serial_topic_never_tombstoned:
  assumes "reachable s"
  shows "(\<forall>(topic, payload) \<in> set (queue s).
            endswith topic ''/system/0/Serial'' \<longrightarrow> payload \<noteq> None)
       \<and> (\<forall>(topic, payload) \<in> set (published s).
            endswith topic ''/system/0/Serial'' \<longrightarrow> payload \<noteq> None)"
  using reachable_inv [OF assms] by (simp add: mirror_inv_def no_serial_tombstone_def)

theorem serial_topic_never_tombstoned_witness:
  "reachable republished_state
   \<and> (''N/abc/system/0/Serial'', Some ''abc'') \<in> set (queue republished_state)
   \<and> (''N/abc/system/0/Serial'', Some ''abc'') \<in> set (published republished_state)
   \<and> endswith ''N/abc/system/0/Serial'' ''/system/0/Serial''
   \<and> Some ''abc'' \<noteq> (None :: string option)"
proof -
  have q: "(''N/abc/system/0/Serial'', Some ''abc'') \<in> set (queue republished_state)"
    by code_simp
  have p: "(''N/abc/system/0/Serial'', Some ''abc'') \<in> set (published republished_state)"
    by code_simp
  have e: "endswith ''N/abc/system/0/Serial'' ''/system/0/Serial''"
    by code_simp
  note T = serial_topic_never_tombstoned [OF reachable_republished_state]
  note c1 = conjunct1 [OF T, THEN bspec, OF q, unfolded prod.case, rule_format, OF e]
  note c2 = conjunct2 [OF T, THEN bspec, OF p, unfolded prod.case, rule_format, OF e]
  show ?thesis
    by (intro conjI reachable_republished_state q p e c1)
qed

subsection \<open>A change signal for a blocked item\<close>

lemma blocked_path_starts_with_slash:
  "(ty, path) \<in> blocked_items \<Longrightarrow> startswith path ''/''"
  by (auto simp: blocked_items_def startswith_def)

text \<open>
  C9. A change signal whose sender resolves to a service, for a blocked pair of service
  type and path with no mirror entry, makes \<^verbatim>\<open>_on_dbus_value_changed\<close> raise \<^verbatim>\<open>KeyError\<close> when
  the service has a record in the registry: \<^verbatim>\<open>_add_item\<close> installs nothing and the handler
  then reads \<^verbatim>\<open>self._topics[uid]\<close>. When the service has no record in the registry, the
  search loop ends without a match and the handler returns: the signal is dropped without
  an exception. Either way the state is left as it was.
\<close>

theorem blocked_change_signal_raises_KeyError:
  assumes r: "reachable s"
    and owner: "map_of (service_ids s) service_id = Some service"
    and ty: "get_service_type service = Inr service_type"
    and bl: "(service_type, path) \<in> blocked_items"
    and none: "map_of (topics s) (service @ path) = None"
  shows "on_dbus_value_changed env changes path service_id s
           = (if service \<in> snd ` set (services s) then (Inl KeyError, s) else (Inr (), s))"
proof (cases "service \<in> snd ` set (services s)")
  case False
  then have "find (\<lambda>(service_short_name, service_name). service_name = service) (services s)
      = None"
    by (force simp: find_None_iff)
  with owner none False show ?thesis
    by (simp add: on_dbus_value_changed_def)
next
  case True
  have inv: "mirror_inv (system_id s) s"
    using r by (rule reachable_inv)
  from True obtain e where
    f: "find (\<lambda>(service_short_name, service_name). service_name = service) (services s) = Some e"
    by (cases "find (\<lambda>(service_short_name, service_name). service_name = service) (services s)")
       (auto simp: find_None_iff)
  obtain short nm where e: "e = (short, nm)" by (cases e)
  from f e have mem: "(short, service) \<in> set (services s)" and nm: "nm = service"
    by (auto simp: find_Some_iff in_set_conv_nth)
  have ok: "bus_name_ok service"
    using inv owner by (rule owner_value_ok)
  from inv mem obtain ty' i where
    "get_service_type service = Inr ty'" and short: "short = ty' @ ''/'' @ show_int i"
    unfolding mirror_inv_def registry_ok_def by blast
  with ty have short: "short = service_type @ ''/'' @ show_int i"
    by simp
  have sp: "py_split CHR ''/'' short = [service_type, show_int i]"
    unfolding short using ok ty by (rule registry_key_split)
  have sw: "startswith path ''/''"
    using bl by (rule blocked_path_starts_with_slash)
  have add: "add_item service (InstStr (show_int i)) path PyNone s = (Inr None, s)"
    using none ty bl sw unfolding add_item_def Let_def by simp
  have "new_item_found env changes service path short s = (Inl KeyError, s)"
    using sp add none by (simp add: new_item_found_def)
  with owner none f e True show ?thesis
    by (simp add: on_dbus_value_changed_def)
qed

theorem blocked_change_signal_raises_KeyError_witness:
  "reachable vebus_state
   \<and> map_of (service_ids vebus_state) '':1.5'' = Some ''com.victronenergy.vebus''
   \<and> get_service_type ''com.victronenergy.vebus'' = Inr ''vebus''
   \<and> (''vebus'', ''/Interfaces/Mk2/Tunnel'') \<in> blocked_items
   \<and> map_of (topics vebus_state) (''com.victronenergy.vebus'' @ ''/Interfaces/Mk2/Tunnel'') = None
   \<and> ''com.victronenergy.vebus'' \<in> snd ` set (services vebus_state)
   \<and> on_dbus_value_changed demo_env [(''Value'', PyInt 3)] ''/Interfaces/Mk2/Tunnel'' '':1.5''
        vebus_state = (Inl KeyError, vebus_state)"
proof -
  have owner: "map_of (service_ids vebus_state) '':1.5'' = Some ''com.victronenergy.vebus''"
    by code_simp
  have known: "''com.victronenergy.vebus'' \<in> snd ` set (services vebus_state)"
    by code_simp
  have ty: "get_service_type ''com.victronenergy.vebus'' = Inr ''vebus''"
    by code_simp
  have bl: "(''vebus'', ''/Interfaces/Mk2/Tunnel'') \<in> blocked_items"
    by (simp add: blocked_items_def)
  have none: "map_of (topics vebus_state) (''com.victronenergy.vebus'' @ ''/Interfaces/Mk2/Tunnel'')
      = None"
    by code_simp
  note T = blocked_change_signal_raises_KeyError [OF reachable_vebus_state owner ty bl none,
      of demo_env "[(''Value'', PyInt 3)]", unfolded if_P [OF known]]
  show ?thesis
    by (intro conjI reachable_vebus_state owner ty bl none known T)
qed

theorem blocked_change_signal_without_record_counterexample:
  "reachable orphan_state
   \<and> map_of (service_ids orphan_state) '':1.5'' = Some ''com.victronenergy.vebus''
   \<and> get_service_type ''com.victronenergy.vebus'' = Inr ''vebus''
   \<and> (''vebus'', ''/Interfaces/Mk2/Tunnel'') \<in> blocked_items
   \<and> map_of (topics orphan_state) (''com.victronenergy.vebus'' @ ''/Interfaces/Mk2/Tunnel'') = None
   \<and> services orphan_state = []
   \<and> on_dbus_value_changed demo_env [(''Value'', PyInt 3)] ''/Interfaces/Mk2/Tunnel'' '':1.5''
        orphan_state = (Inr (), orphan_state)"
proof -
  have owner: "map_of (service_ids orphan_state) '':1.5'' = Some ''com.victronenergy.vebus''"
    by code_simp
  have ty: "get_service_type ''com.victronenergy.vebus'' = Inr ''vebus''"
    by code_simp
  have bl: "(''vebus'', ''/Interfaces/Mk2/Tunnel'') \<in> blocked_items"
    by (simp add: blocked_items_def)
  have none: "map_of (topics orphan_state) (''com.victronenergy.vebus'' @ ''/Interfaces/Mk2/Tunnel'')
      = None"
    by code_simp
  have reg: "services orphan_state = []"
    by code_simp
  have dropped: "on_dbus_value_changed demo_env [(''Value'', PyInt 3)] ''/Interfaces/Mk2/Tunnel''
        '':1.5'' orphan_state = (Inr (), orphan_state)"
    by code_simp
  show ?thesis
    by (intro conjI reachable_orphan_state owner ty bl none reg dropped)
qed

subsection \<open>A read request for a mirrored item\<close>

lemma publish_values [simp]: "values' (publish env t v s) = values' s"
  by (simp add: publish_def)

lemma publish_all_loop_result:
  assumes "socket_watch s" and "\<forall>t \<in> set ts. map_of (values' s) t \<noteq> None"
  shows "fst (publish_all_loop env ts s) = Inr ()
       \<and> values' (snd (publish_all_loop env ts s)) = values' s
       \<and> (\<forall>t. map_of (queue (snd (publish_all_loop env ts s))) t =
              (if t \<in> set ts
               then map_option (\<lambda>v. Some (json_dumps env v)) (map_of (values' s) t)
               else map_of (queue s) t))"
  using assms
proof (induction ts arbitrary: s)
  case Nil
  then show ?case by simp
next
  case (Cons t ts)
  from Cons.prems(2) obtain v where v: "map_of (values' s) t = Some v"
    by auto
  let ?s1 = "publish env t v s"
  have sw1: "socket_watch ?s1"
    using Cons.prems(1) by simp
  have all1: "\<forall>t \<in> set ts. map_of (values' ?s1) t \<noteq> None"
    using Cons.prems(2) by simp
  note IH = Cons.IH [OF sw1 all1]
  have q1: "map_of (queue ?s1) = (map_of (queue s))(t \<mapsto> Some (json_dumps env v))"
    using Cons.prems(1) by (rule publish_lookup)
  have unf: "publish_all_loop env (t # ts) s = publish_all_loop env ts ?s1"
    using v by simp
  show ?case
    unfolding unf using IH q1 v by auto
qed

lemma publish_all_result:
  assumes sw: "socket_watch s" and stored: "map_of (values' s) topic = Some old"
  shows "fst (publish_all env s) = Inr ()
       \<and> map_of (queue (snd (publish_all env s))) topic = Some (Some (json_dumps env old))"
proof -
  have all: "\<forall>t \<in> set (sort (map fst (values' s))). map_of (values' s) t \<noteq> None"
    by (simp add: map_of_eq_None_iff)
  have mem: "topic \<in> set (sort (map fst (values' s)))"
    using stored by (simp add: map_of_eq_None_iff [symmetric, THEN iffD1] domI
        dom_map_of_conv_image_fst [symmetric])
  from publish_all_loop_result [OF sw all, of env] mem stored show ?thesis
    unfolding publish_all_def by simp
qed

text \<open>
  C10. A read request arrives while the broker socket is up. Its topic resolves, through the
  registry, to a service, and the uid made of that service and the path of the request has
  a mirror entry for the topic, whose value slot holds a stored value. Then \<^verbatim>\<open>_handle_read\<close>
  enqueues the freshly read bus value for the topic and changes nothing else: the stored
  value stays as it was, so the publish-all that follows enqueues the stored value again,
  not the value last read.
\<close>

theorem read_of_mirrored_topic_keeps_stored_value:
  assumes sw: "socket_watch s"
    and uid: "get_uid_by_topic topic s = Inr (Some service, device_instance, path)"
    and fresh: "get_dbus_value env service (''/'' @ path) = Inr v"
    and entry: "map_of (topics s)
                  (service @ (if \<not> startswith path ''/'' then ''/'' @ path else path)) = Some topic"
    and stored: "map_of (values' s) topic = Some old"
  shows "handle_read env topic s
           = (Inr (), s\<lparr>queue := AList.update topic (Some (json_dumps env v)) (queue s)\<rparr>)
       \<and> values' (snd (handle_read env topic s)) = values' s
       \<and> fst (publish_all env (snd (handle_read env topic s))) = Inr ()
       \<and> map_of (queue (snd (publish_all env (snd (handle_read env topic s))))) topic
           = Some (Some (json_dumps env old))"
proof -
  have add: "add_item service (InstInt device_instance) path v s = (Inr (Some topic), s)"
    using entry unfolding add_item_def Let_def by simp
  have rd: "handle_read env topic s
      = (Inr (), s\<lparr>queue := AList.update topic (Some (json_dumps env v)) (queue s)\<rparr>)"
    using uid fresh add sw by (simp add: handle_read_def publish_def)
  let ?s1 = "s\<lparr>queue := AList.update topic (Some (json_dumps env v)) (queue s)\<rparr>"
  have "socket_watch ?s1" "map_of (values' ?s1) topic = Some old"
    using sw stored by simp_all
  from publish_all_result [OF this, of env] rd show ?thesis
    by simp
qed

theorem read_of_mirrored_topic_keeps_stored_value_witness:
  "socket_watch demo_state
   \<and> get_uid_by_topic ''N/abc/system/0/Ac/Power'' demo_state
       = Inr (Some ''com.victronenergy.system'', 0, ''Ac/Power'')
   \<and> get_dbus_value demo_env ''com.victronenergy.system'' (''/'' @ ''Ac/Power'') = Inr (PyInt 7)
   \<and> map_of (topics demo_state)
        (''com.victronenergy.system''
           @ (if \<not> startswith ''Ac/Power'' ''/'' then ''/'' @ ''Ac/Power'' else ''Ac/Power''))
       = Some ''N/abc/system/0/Ac/Power''
   \<and> map_of (values' demo_state) ''N/abc/system/0/Ac/Power'' = Some (PyInt 5)
   \<and> queue (snd (handle_read demo_env ''N/abc/system/0/Ac/Power'' demo_state))
       = [(''N/abc/system/0/Ac/Power'', Some ''7'')]
   \<and> values' (snd (handle_read demo_env ''N/abc/system/0/Ac/Power'' demo_state))
       = values' demo_state
   \<and> map_of (queue (snd (publish_all demo_env
          (snd (handle_read demo_env ''N/abc/system/0/Ac/Power'' demo_state)))))
        ''N/abc/system/0/Ac/Power'' = Some (Some (json_dumps demo_env (PyInt 5)))"
proof -
  have sw: "socket_watch demo_state"
    by code_simp
  have uid: "get_uid_by_topic ''N/abc/system/0/Ac/Power'' demo_state
       = Inr (Some ''com.victronenergy.system'', 0, ''Ac/Power'')"
    by code_simp
  have fresh: "get_dbus_value demo_env ''com.victronenergy.system'' (''/'' @ ''Ac/Power'')
       = Inr (PyInt 7)"
    by code_simp
  have entry: "map_of (topics demo_state)
        (''com.victronenergy.system''
           @ (if \<not> startswith ''Ac/Power'' ''/'' then ''/'' @ ''Ac/Power'' else ''Ac/Power''))
       = Some ''N/abc/system/0/Ac/Power''"
    by code_simp
  have stored: "map_of (values' demo_state) ''N/abc/system/0/Ac/Power'' = Some (PyInt 5)"
    by code_simp
  have q: "queue (snd (handle_read demo_env ''N/abc/system/0/Ac/Power'' demo_state))
       = [(''N/abc/system/0/Ac/Power'', Some ''7'')]"
    by code_simp
  note T = read_of_mirrored_topic_keeps_stored_value [OF sw uid fresh entry stored]
  note c2 = conjunct1 [OF conjunct2 [OF T]]
  note c4 = conjunct2 [OF conjunct2 [OF conjunct2 [OF T]]]
  show ?thesis
    by (intro conjI sw uid fresh entry stored q c2 c4)
qed

theorem read_of_shared_topic_replaces_stored_value_counterexample:
  "reachable twin_state
   \<and> (''com.victronenergy.tank.a/Level'', ''N/abc/tank/0/Level'') \<in> set (topics twin_state)
   \<and> map_of (values' twin_state) ''N/abc/tank/0/Level'' = Some (PyInt 5)
   \<and> get_uid_by_topic ''N/abc/tank/0/Level'' twin_state
       = Inr (Some ''com.victronenergy.tank.b'', 0, ''Level'')
   \<and> get_dbus_value twin_env ''com.victronenergy.tank.b'' (''/'' @ ''Level'') = Inr (PyInt 7)
   \<and> fst (handle_read twin_env ''N/abc/tank/0/Level'' twin_state) = Inr ()
   \<and> map_of (values' (snd (handle_read twin_env ''N/abc/tank/0/Level'' twin_state)))
        ''N/abc/tank/0/Level'' = Some (PyInt 7)
   \<and> map_of (queue (snd (publish_all twin_env
          (snd (handle_read twin_env ''N/abc/tank/0/Level'' twin_state)))))
        ''N/abc/tank/0/Level'' = Some (Some ''7'')"
proof -
  have a: "(''com.victronenergy.tank.a/Level'', ''N/abc/tank/0/Level'') \<in> set (topics twin_state)"
    by code_simp
  have b: "map_of (values' twin_state) ''N/abc/tank/0/Level'' = Some (PyInt 5)"
    by code_simp
  have c: "get_uid_by_topic ''N/abc/tank/0/Level'' twin_state
       = Inr (Some ''com.victronenergy.tank.b'', 0, ''Level'')"
    by code_simp
  have d: "get_dbus_value twin_env ''com.victronenergy.tank.b'' (''/'' @ ''Level'') = Inr (PyInt 7)"
    by code_simp
  have e: "fst (handle_read twin_env ''N/abc/tank/0/Level'' twin_state) = Inr ()"
    by code_simp
  have f: "map_of (values' (snd (handle_read twin_env ''N/abc/tank/0/Level'' twin_state)))
        ''N/abc/tank/0/Level'' = Some (PyInt 7)"
    by code_simp
  have g: "map_of (queue (snd (publish_all twin_env
          (snd (handle_read twin_env ''N/abc/tank/0/Level'' twin_state)))))
        ''N/abc/tank/0/Level'' = Some (Some ''7'')"
    by code_simp
  show ?thesis
    by (intro conjI reachable_twin_state a b c d e f g)
qed

end
